theory Spec2Isabelle
  imports Complex_Main "HOL-Library.Word" "HOL-Library.Code_Target_Numeral"
begin

unbundle bit_operations_syntax

section \<open>UserInput: debounced joystick and button edges\<close>

subsection \<open>Pins, levels and the hardware seen by the module\<close>

datatype GPIO_Port = GPIO_NULL | GPIOB | GPIOC | GPIOD | GPIOE

text \<open>Modelled from the spec: \<^verbatim>\<open>Pin.h\<close> is not among the sources; a pin is
  a port identifier and a pin number, used as \<^verbatim>\<open>pin.GPIOx\<close> and
  \<^verbatim>\<open>pin.GPIO_Pin\<close> in \<^verbatim>\<open>UserInput.c\<close>.\<close>

record Pin =
  GPIOx :: GPIO_Port
  GPIO_Pin :: "16 word"

datatype GPIO_PinState = GPIO_PIN_RESET | GPIO_PIN_SET

text \<open>The value of a pin state once stored in a \<^verbatim>\<open>uint8_t\<close>.\<close>

fun pin_val :: "GPIO_PinState \<Rightarrow> 8 word" where
  "pin_val GPIO_PIN_RESET = 0"
| "pin_val GPIO_PIN_SET = 1"

definition GPIO_PIN_5 :: "16 word" where "GPIO_PIN_5 = 0x0020"
definition GPIO_PIN_10 :: "16 word" where "GPIO_PIN_10 = 0x0400"
definition GPIO_PIN_13 :: "16 word" where "GPIO_PIN_13 = 0x2000"
definition GPIO_PIN_14 :: "16 word" where "GPIO_PIN_14 = 0x4000"
definition GPIO_PIN_15 :: "16 word" where "GPIO_PIN_15 = 0x8000"

datatype UserInputs =
  MDS_LEFT | MDS_RIGHT | MDS_UP | MDS_DOWN | MDS_BUTTON | USER_BUTTON | USER_INPUT_NONE

text \<open>The pin of each input line, from \<^verbatim>\<open>main.h\<close>.\<close>

fun pin_of :: "UserInputs \<Rightarrow> Pin" where
  "pin_of MDS_LEFT = \<lparr>GPIOx = GPIOE, GPIO_Pin = GPIO_PIN_5\<rparr>"
| "pin_of MDS_RIGHT = \<lparr>GPIOx = GPIOB, GPIO_Pin = GPIO_PIN_5\<rparr>"
| "pin_of MDS_UP = \<lparr>GPIOx = GPIOE, GPIO_Pin = GPIO_PIN_15\<rparr>"
| "pin_of MDS_DOWN = \<lparr>GPIOx = GPIOE, GPIO_Pin = GPIO_PIN_10\<rparr>"
| "pin_of MDS_BUTTON = \<lparr>GPIOx = GPIOD, GPIO_Pin = GPIO_PIN_14\<rparr>"
| "pin_of USER_BUTTON = \<lparr>GPIOx = GPIOC, GPIO_Pin = GPIO_PIN_13\<rparr>"
| "pin_of USER_INPUT_NONE = \<lparr>GPIOx = GPIO_NULL, GPIO_Pin = 0\<rparr>"

text \<open>The two build-time debounce methods of \<^verbatim>\<open>UserInput.h\<close>.\<close>

datatype debounce_method = DEBOUNCE_WITH_DELAY | DEBOUNCE_WITH_TIMER

text \<open>The raw level of every pin at every tick: the hardware, as the module reads it.\<close>

type_synonym gpio_env = "nat \<Rightarrow> Pin \<Rightarrow> GPIO_PinState"

text \<open>The globals of \<^verbatim>\<open>UserInput.c\<close>, the bits of TIM6 the module drives
  (counter, counter enable, update interrupt enable, update flag) and the tick counter
  that \<^verbatim>\<open>HAL_Delay\<close> waits on.\<close>

record ui_state =
  MDS_RIGHT_LetzterStatus :: "8 word"
  MDS_UP_LetzterStatus :: "8 word"
  MDS_DOWN_LetzterStatus :: "8 word"
  MDS_BUTTON_LetzterStatus :: "8 word"
  USER_BUTTON_LetzterStatus :: "8 word"
  MDS_LEFT_Status :: "8 word"
  MDS_RIGHT_Status :: "8 word"
  MDS_UP_Status :: "8 word"
  MDS_DOWN_Status :: "8 word"
  MDS_BUTTON_Status :: "8 word"
  USER_BUTTON_Status :: "8 word"
  MDS_LEFT_LetzterStatus :: "8 word"
  Pending_MDS_LEFT_Flanke :: "8 word"
  Pending_MDS_RIGHT_Flanke :: "8 word"
  Pending_MDS_UP_Flanke :: "8 word"
  Pending_MDS_DOWN_Flanke :: "8 word"
  Pending_MDS_BUTTON_Flanke :: "8 word"
  Pending_USER_BUTTON_Flanke :: "8 word"
  MDS_LEFT_Flanke :: "8 word"
  MDS_RIGHT_Flanke :: "8 word"
  MDS_UP_Flanke :: "8 word"
  MDS_DOWN_Flanke :: "8 word"
  MDS_BUTTON_Flanke :: "8 word"
  USER_BUTTON_Flanke :: "8 word"
  LetzterUserInputPin :: Pin
  LetzterUserInput :: UserInputs
  debounce_in_progress :: "8 word"
  tim6_CNT :: "16 word"
  tim6_CEN :: bool
  tim6_UIE :: bool
  tim6_UIF :: bool
  uwTick :: nat

text \<open>The initial values of the globals; the timer is stopped.\<close>

definition ui_init :: ui_state where
  "ui_init = \<lparr>
     MDS_RIGHT_LetzterStatus = 0, MDS_UP_LetzterStatus = 0, MDS_DOWN_LetzterStatus = 0,
     MDS_BUTTON_LetzterStatus = 0, USER_BUTTON_LetzterStatus = 0,
     MDS_LEFT_Status = 0, MDS_RIGHT_Status = 0, MDS_UP_Status = 0, MDS_DOWN_Status = 0,
     MDS_BUTTON_Status = 0, USER_BUTTON_Status = 0,
     MDS_LEFT_LetzterStatus = 0,
     Pending_MDS_LEFT_Flanke = 0, Pending_MDS_RIGHT_Flanke = 0, Pending_MDS_UP_Flanke = 0,
     Pending_MDS_DOWN_Flanke = 0, Pending_MDS_BUTTON_Flanke = 0, Pending_USER_BUTTON_Flanke = 0,
     MDS_LEFT_Flanke = 0, MDS_RIGHT_Flanke = 0, MDS_UP_Flanke = 0,
     MDS_DOWN_Flanke = 0, MDS_BUTTON_Flanke = 0, USER_BUTTON_Flanke = 0,
     LetzterUserInputPin = \<lparr>GPIOx = GPIO_NULL, GPIO_Pin = 0\<rparr>,
     LetzterUserInput = USER_INPUT_NONE,
     debounce_in_progress = 0,
     tim6_CNT = 0, tim6_CEN = False, tim6_UIE = False, tim6_UIF = False,
     uwTick = 0\<rparr>"

text \<open>\<^verbatim>\<open>HAL_GPIO_ReadPin\<close> returns the level of the pin at the current tick;
  \<^verbatim>\<open>HAL_Delay\<close> suspends the caller for the given number of ticks.\<close>

definition HAL_GPIO_ReadPin :: "gpio_env \<Rightarrow> ui_state \<Rightarrow> Pin \<Rightarrow> GPIO_PinState" where
  "HAL_GPIO_ReadPin env s pin = env (uwTick s) pin"

definition HAL_Delay :: "nat \<Rightarrow> ui_state \<Rightarrow> ui_state" where
  "HAL_Delay n s = s\<lparr>uwTick := uwTick s + n\<rparr>"

subsection \<open>The flag variables\<close>

text \<open>\<^verbatim>\<open>HandleFlanke\<close> receives the address of one of the twelve flag
  variables.\<close>

datatype flag_ref = Ref_Flanke UserInputs | Ref_Pending UserInputs

fun Flanke_of :: "UserInputs \<Rightarrow> ui_state \<Rightarrow> 8 word" where
  "Flanke_of MDS_LEFT s = MDS_LEFT_Flanke s"
| "Flanke_of MDS_RIGHT s = MDS_RIGHT_Flanke s"
| "Flanke_of MDS_UP s = MDS_UP_Flanke s"
| "Flanke_of MDS_DOWN s = MDS_DOWN_Flanke s"
| "Flanke_of MDS_BUTTON s = MDS_BUTTON_Flanke s"
| "Flanke_of USER_BUTTON s = USER_BUTTON_Flanke s"
| "Flanke_of USER_INPUT_NONE s = 0"

fun Pending_of :: "UserInputs \<Rightarrow> ui_state \<Rightarrow> 8 word" where
  "Pending_of MDS_LEFT s = Pending_MDS_LEFT_Flanke s"
| "Pending_of MDS_RIGHT s = Pending_MDS_RIGHT_Flanke s"
| "Pending_of MDS_UP s = Pending_MDS_UP_Flanke s"
| "Pending_of MDS_DOWN s = Pending_MDS_DOWN_Flanke s"
| "Pending_of MDS_BUTTON s = Pending_MDS_BUTTON_Flanke s"
| "Pending_of USER_BUTTON s = Pending_USER_BUTTON_Flanke s"
| "Pending_of USER_INPUT_NONE s = 0"

fun store_flag :: "flag_ref \<Rightarrow> 8 word \<Rightarrow> ui_state \<Rightarrow> ui_state" where
  "store_flag (Ref_Flanke MDS_LEFT) v s = s\<lparr>MDS_LEFT_Flanke := v\<rparr>"
| "store_flag (Ref_Flanke MDS_RIGHT) v s = s\<lparr>MDS_RIGHT_Flanke := v\<rparr>"
| "store_flag (Ref_Flanke MDS_UP) v s = s\<lparr>MDS_UP_Flanke := v\<rparr>"
| "store_flag (Ref_Flanke MDS_DOWN) v s = s\<lparr>MDS_DOWN_Flanke := v\<rparr>"
| "store_flag (Ref_Flanke MDS_BUTTON) v s = s\<lparr>MDS_BUTTON_Flanke := v\<rparr>"
| "store_flag (Ref_Flanke USER_BUTTON) v s = s\<lparr>USER_BUTTON_Flanke := v\<rparr>"
| "store_flag (Ref_Flanke USER_INPUT_NONE) v s = s"
| "store_flag (Ref_Pending MDS_LEFT) v s = s\<lparr>Pending_MDS_LEFT_Flanke := v\<rparr>"
| "store_flag (Ref_Pending MDS_RIGHT) v s = s\<lparr>Pending_MDS_RIGHT_Flanke := v\<rparr>"
| "store_flag (Ref_Pending MDS_UP) v s = s\<lparr>Pending_MDS_UP_Flanke := v\<rparr>"
| "store_flag (Ref_Pending MDS_DOWN) v s = s\<lparr>Pending_MDS_DOWN_Flanke := v\<rparr>"
| "store_flag (Ref_Pending MDS_BUTTON) v s = s\<lparr>Pending_MDS_BUTTON_Flanke := v\<rparr>"
| "store_flag (Ref_Pending USER_BUTTON) v s = s\<lparr>Pending_USER_BUTTON_Flanke := v\<rparr>"
| "store_flag (Ref_Pending USER_INPUT_NONE) v s = s"

text \<open>The six input channels, in the order of the enumeration.\<close>

definition channels :: "UserInputs list" where
  "channels = [MDS_LEFT, MDS_RIGHT, MDS_UP, MDS_DOWN, MDS_BUTTON, USER_BUTTON]"

subsection \<open>HandlePendingUserInput and ResetFlanken\<close>

definition HandlePendingUserInput :: "ui_state \<Rightarrow> ui_state" where
  "HandlePendingUserInput s =
    (let s1 = (if Pending_MDS_LEFT_Flanke s \<noteq> 0
               then s\<lparr>MDS_LEFT_Flanke := 1, Pending_MDS_LEFT_Flanke := 0\<rparr> else s);
         s2 = (if Pending_MDS_RIGHT_Flanke s1 \<noteq> 0
               then s1\<lparr>MDS_RIGHT_Flanke := 1, Pending_MDS_RIGHT_Flanke := 0\<rparr> else s1);
         s3 = (if Pending_MDS_UP_Flanke s2 \<noteq> 0
               then s2\<lparr>MDS_UP_Flanke := 1, Pending_MDS_UP_Flanke := 0\<rparr> else s2);
         s4 = (if Pending_MDS_DOWN_Flanke s3 \<noteq> 0
               then s3\<lparr>MDS_DOWN_Flanke := 1, Pending_MDS_DOWN_Flanke := 0\<rparr> else s3);
         s5 = (if Pending_MDS_BUTTON_Flanke s4 \<noteq> 0
               then s4\<lparr>MDS_BUTTON_Flanke := 1, Pending_MDS_BUTTON_Flanke := 0\<rparr> else s4)
     in if Pending_USER_BUTTON_Flanke s5 \<noteq> 0
        then s5\<lparr>USER_BUTTON_Flanke := 1, Pending_USER_BUTTON_Flanke := 0\<rparr> else s5)"

definition ResetFlanken :: "ui_state \<Rightarrow> ui_state" where
  "ResetFlanken s = s\<lparr>MDS_LEFT_Flanke := 0, MDS_RIGHT_Flanke := 0, MDS_UP_Flanke := 0,
     MDS_DOWN_Flanke := 0, MDS_BUTTON_Flanke := 0, USER_BUTTON_Flanke := 0\<rparr>"

subsection \<open>HandleFlanke: the start of a debounce\<close>

text \<open>With \<^verbatim>\<open>DEBOUNCE_WITH_DELAY\<close> the function waits 50 ticks and reads the pin
  again; with \<^verbatim>\<open>DEBOUNCE_WITH_TIMER\<close> it sets the latch, records pin and
  channel, resets the counter of TIM6 and starts the timer with its interrupt.\<close>

definition HandleFlanke ::
  "debounce_method \<Rightarrow> gpio_env \<Rightarrow> Pin \<Rightarrow> UserInputs \<Rightarrow> flag_ref \<Rightarrow> ui_state \<Rightarrow> ui_state" where
  "HandleFlanke m env pin userInput flankenVariable s =
    (case m of
       DEBOUNCE_WITH_DELAY \<Rightarrow>
         (let s1 = HAL_Delay 50 s in
          if HAL_GPIO_ReadPin env s1 pin = GPIO_PIN_SET
             \<or> (HAL_GPIO_ReadPin env s1 pin = GPIO_PIN_RESET \<and> userInput = USER_BUTTON)
          then store_flag flankenVariable 1 s1
          else s1)
     | DEBOUNCE_WITH_TIMER \<Rightarrow>
         s\<lparr>debounce_in_progress := 1,
           LetzterUserInputPin := \<lparr>GPIOx = GPIOx pin, GPIO_Pin = GPIO_Pin pin\<rparr>,
           LetzterUserInput := userInput,
           tim6_CNT := 0, tim6_CEN := True, tim6_UIE := True\<rparr>)"

subsection \<open>PollingUserInput\<close>

definition PollingUserInput :: "debounce_method \<Rightarrow> gpio_env \<Rightarrow> ui_state \<Rightarrow> ui_state" where
  "PollingUserInput m env s =
    (if m = DEBOUNCE_WITH_TIMER \<and> debounce_in_progress s \<noteq> 0 then s
     else
      (let s1 = s\<lparr>
             MDS_LEFT_Status := pin_val (HAL_GPIO_ReadPin env s (pin_of MDS_LEFT)),
             MDS_RIGHT_Status := pin_val (HAL_GPIO_ReadPin env s (pin_of MDS_RIGHT)),
             MDS_UP_Status := pin_val (HAL_GPIO_ReadPin env s (pin_of MDS_UP)),
             MDS_DOWN_Status := pin_val (HAL_GPIO_ReadPin env s (pin_of MDS_DOWN)),
             MDS_BUTTON_Status := pin_val (HAL_GPIO_ReadPin env s (pin_of MDS_BUTTON)),
             USER_BUTTON_Status := pin_val (HAL_GPIO_ReadPin env s (pin_of USER_BUTTON))\<rparr>;
           s2 =
            (if MDS_LEFT_Status s1 = pin_val GPIO_PIN_SET \<and> MDS_LEFT_LetzterStatus s1 = 0
             then HandleFlanke m env (pin_of MDS_LEFT) MDS_LEFT (Ref_Flanke MDS_LEFT) s1
             else if MDS_RIGHT_Status s1 = pin_val GPIO_PIN_SET \<and> MDS_RIGHT_LetzterStatus s1 = 0
             then HandleFlanke m env (pin_of MDS_RIGHT) MDS_RIGHT (Ref_Flanke MDS_RIGHT) s1
             else if MDS_UP_Status s1 = pin_val GPIO_PIN_SET \<and> MDS_UP_LetzterStatus s1 = 0
             then HandleFlanke m env (pin_of MDS_UP) MDS_UP (Ref_Flanke MDS_UP) s1
             else if MDS_DOWN_Status s1 = pin_val GPIO_PIN_SET \<and> MDS_DOWN_LetzterStatus s1 = 0
             then HandleFlanke m env (pin_of MDS_DOWN) MDS_DOWN (Ref_Flanke MDS_DOWN) s1
             else if MDS_BUTTON_Status s1 = pin_val GPIO_PIN_SET \<and> MDS_BUTTON_LetzterStatus s1 = 0
             then HandleFlanke m env (pin_of MDS_BUTTON) MDS_BUTTON (Ref_Flanke MDS_BUTTON) s1
             else if USER_BUTTON_Status s1 = pin_val GPIO_PIN_RESET \<and> USER_BUTTON_LetzterStatus s1 = 1
             then HandleFlanke m env (pin_of USER_BUTTON) USER_BUTTON (Ref_Flanke USER_BUTTON) s1
             else s1)
       in s2\<lparr>MDS_LEFT_LetzterStatus := MDS_LEFT_Status s2,
             MDS_RIGHT_LetzterStatus := MDS_RIGHT_Status s2,
             MDS_UP_LetzterStatus := MDS_UP_Status s2,
             MDS_DOWN_LetzterStatus := MDS_DOWN_Status s2,
             MDS_BUTTON_LetzterStatus := MDS_BUTTON_Status s2,
             USER_BUTTON_LetzterStatus := USER_BUTTON_Status s2\<rparr>))"

subsection \<open>HandleDebouncedUserInput and the timer callback\<close>

definition HandleDebouncedUserInput :: "gpio_env \<Rightarrow> ui_state \<Rightarrow> ui_state" where
  "HandleDebouncedUserInput env s =
    (if HAL_GPIO_ReadPin env s (LetzterUserInputPin s) = GPIO_PIN_SET then
       (case LetzterUserInput s of
          MDS_LEFT \<Rightarrow> s\<lparr>Pending_MDS_LEFT_Flanke := 1\<rparr>
        | MDS_RIGHT \<Rightarrow> s\<lparr>Pending_MDS_RIGHT_Flanke := 1\<rparr>
        | MDS_UP \<Rightarrow> s\<lparr>Pending_MDS_UP_Flanke := 1\<rparr>
        | MDS_DOWN \<Rightarrow> s\<lparr>Pending_MDS_DOWN_Flanke := 1\<rparr>
        | MDS_BUTTON \<Rightarrow> s\<lparr>Pending_MDS_BUTTON_Flanke := 1\<rparr>
        | USER_BUTTON \<Rightarrow> s
        | USER_INPUT_NONE \<Rightarrow> s)
     else if LetzterUserInput s = USER_BUTTON
             \<and> HAL_GPIO_ReadPin env s (LetzterUserInputPin s) = GPIO_PIN_RESET
     then s\<lparr>Pending_USER_BUTTON_Flanke := 1\<rparr>
     else s\<lparr>LetzterUserInput := USER_INPUT_NONE,
            LetzterUserInputPin := \<lparr>GPIOx = GPIO_NULL, GPIO_Pin = 0\<rparr>\<rparr>)"

datatype TIM_Instance = TIM1 | TIM6 | TIM7

text \<open>\<^verbatim>\<open>HAL_TIM_PeriodElapsedCallback\<close> of \<^verbatim>\<open>main.c\<close>. For TIM6 it runs
  \<^verbatim>\<open>HandleDebouncedUserInput\<close>, stops the timer (\<^verbatim>\<open>HAL_TIM_Base_Stop\<close> clears
  the counter enable), clears the latch and clears the update flag. For TIM7 it calls
  \<^verbatim>\<open>Realtime_Loop\<close>, which touches none of the variables of this module.\<close>

definition HAL_TIM_PeriodElapsedCallback ::
  "debounce_method \<Rightarrow> gpio_env \<Rightarrow> TIM_Instance \<Rightarrow> ui_state \<Rightarrow> ui_state" where
  "HAL_TIM_PeriodElapsedCallback m env htim s =
    (if m = DEBOUNCE_WITH_TIMER \<and> htim = TIM6
     then (HandleDebouncedUserInput env s)
            \<lparr>tim6_CEN := False, debounce_in_progress := 0, tim6_UIF := False\<rparr>
     else s)"

subsection \<open>Interrupt mode\<close>

definition HandleUserInputInterrupt ::
  "debounce_method \<Rightarrow> gpio_env \<Rightarrow> UserInputs \<Rightarrow> ui_state \<Rightarrow> ui_state" where
  "HandleUserInputInterrupt m env userInput s =
    (if m = DEBOUNCE_WITH_TIMER \<and> debounce_in_progress s \<noteq> 0 then s
     else
      (case userInput of
         MDS_UP \<Rightarrow> HandleFlanke m env (pin_of MDS_UP) MDS_UP (Ref_Pending MDS_UP) s
       | MDS_BUTTON \<Rightarrow> HandleFlanke m env (pin_of MDS_BUTTON) MDS_BUTTON (Ref_Pending MDS_BUTTON) s
       | MDS_RIGHT \<Rightarrow> HandleFlanke m env (pin_of MDS_RIGHT) MDS_RIGHT (Ref_Pending MDS_RIGHT) s
       | MDS_DOWN \<Rightarrow> HandleFlanke m env (pin_of MDS_DOWN) MDS_DOWN (Ref_Pending MDS_DOWN) s
       | USER_BUTTON \<Rightarrow>
           HandleFlanke m env (pin_of USER_BUTTON) USER_BUTTON (Ref_Pending USER_BUTTON) s
       | MDS_LEFT \<Rightarrow> s
       | USER_INPUT_NONE \<Rightarrow> s))"

definition UserInput_Interrupt ::
  "debounce_method \<Rightarrow> gpio_env \<Rightarrow> 16 word \<Rightarrow> ui_state \<Rightarrow> ui_state" where
  "UserInput_Interrupt m env pin s =
    (if pin = GPIO_PIN_15 then HandleUserInputInterrupt m env MDS_UP s
     else if pin = GPIO_PIN_14 then HandleUserInputInterrupt m env MDS_BUTTON s
     else if pin = GPIO_PIN_5 then HandleUserInputInterrupt m env MDS_RIGHT s
     else if pin = GPIO_PIN_10 then HandleUserInputInterrupt m env MDS_DOWN s
     else if pin = GPIO_PIN_13 then HandleUserInputInterrupt m env USER_BUTTON s
     else s)"




text \<open>A channel has a debounce in progress when the latch is set and the channel is the
  recorded one.\<close>

definition debouncing :: "ui_state \<Rightarrow> UserInputs \<Rightarrow> bool" where
  "debouncing s c \<longleftrightarrow> debounce_in_progress s \<noteq> 0 \<and> LetzterUserInput s = c"


text \<open>Two hardware situations: every line high; every line low.\<close>

definition all_high :: gpio_env where
  "all_high t p = GPIO_PIN_SET"

definition all_low :: gpio_env where
  "all_low t p = GPIO_PIN_RESET"





text \<open>The user button is held down (low) at tick 0 and released (high) from tick 1 on;
  the joystick lines stay low.\<close>

definition button_tapped :: gpio_env where
  "button_tapped t p =
     (if p = pin_of USER_BUTTON \<and> 0 < t then GPIO_PIN_SET else GPIO_PIN_RESET)"

subsection \<open>The parts of PollingUserInput, named\<close>

fun LetzterStatus_of :: "UserInputs \<Rightarrow> ui_state \<Rightarrow> 8 word" where
  "LetzterStatus_of MDS_LEFT s = MDS_LEFT_LetzterStatus s"
| "LetzterStatus_of MDS_RIGHT s = MDS_RIGHT_LetzterStatus s"
| "LetzterStatus_of MDS_UP s = MDS_UP_LetzterStatus s"
| "LetzterStatus_of MDS_DOWN s = MDS_DOWN_LetzterStatus s"
| "LetzterStatus_of MDS_BUTTON s = MDS_BUTTON_LetzterStatus s"
| "LetzterStatus_of USER_BUTTON s = USER_BUTTON_LetzterStatus s"
| "LetzterStatus_of USER_INPUT_NONE s = 0"

text \<open>A qualifying transition: the line reads high after a previous level 0, or, for
  the user button, reads low after a previous level 1.\<close>

definition qualifying :: "gpio_env \<Rightarrow> ui_state \<Rightarrow> UserInputs \<Rightarrow> bool" where
  "qualifying env s c =
    (if c = USER_BUTTON
     then HAL_GPIO_ReadPin env s (pin_of c) = GPIO_PIN_RESET \<and> LetzterStatus_of c s = 1
     else HAL_GPIO_ReadPin env s (pin_of c) = GPIO_PIN_SET \<and> LetzterStatus_of c s = 0)"

text \<open>Sampling the six levels once, and storing the six samples as previous levels.\<close>

definition sample_levels :: "gpio_env \<Rightarrow> ui_state \<Rightarrow> ui_state" where
  "sample_levels env s = s\<lparr>
     MDS_LEFT_Status := pin_val (HAL_GPIO_ReadPin env s (pin_of MDS_LEFT)),
     MDS_RIGHT_Status := pin_val (HAL_GPIO_ReadPin env s (pin_of MDS_RIGHT)),
     MDS_UP_Status := pin_val (HAL_GPIO_ReadPin env s (pin_of MDS_UP)),
     MDS_DOWN_Status := pin_val (HAL_GPIO_ReadPin env s (pin_of MDS_DOWN)),
     MDS_BUTTON_Status := pin_val (HAL_GPIO_ReadPin env s (pin_of MDS_BUTTON)),
     USER_BUTTON_Status := pin_val (HAL_GPIO_ReadPin env s (pin_of USER_BUTTON))\<rparr>"

definition remember_levels :: "ui_state \<Rightarrow> ui_state" where
  "remember_levels s = s\<lparr>
     MDS_LEFT_LetzterStatus := MDS_LEFT_Status s,
     MDS_RIGHT_LetzterStatus := MDS_RIGHT_Status s,
     MDS_UP_LetzterStatus := MDS_UP_Status s,
     MDS_DOWN_LetzterStatus := MDS_DOWN_Status s,
     MDS_BUTTON_LetzterStatus := MDS_BUTTON_Status s,
     USER_BUTTON_LetzterStatus := USER_BUTTON_Status s\<rparr>"

text \<open>The poll that begins a debounce for the first channel with a qualifying
  transition, in the order of \<open>channels\<close>, and for no other.\<close>

definition poll_first_only :: "debounce_method \<Rightarrow> gpio_env \<Rightarrow> ui_state \<Rightarrow> ui_state" where
  "poll_first_only m env s =
    (if m = DEBOUNCE_WITH_TIMER \<and> debounce_in_progress s \<noteq> 0 then s
     else (case find (qualifying env s) channels of
             None \<Rightarrow> remember_levels (sample_levels env s)
           | Some c \<Rightarrow>
               remember_levels
                 (HandleFlanke m env (pin_of c) c (Ref_Flanke c) (sample_levels env s))))"


text \<open>The state in which the interrupt of the user button has just begun a debounce, and
  the state in which the previous sample of the user button is 1 (released).\<close>

definition user_button_started :: ui_state where
  "user_button_started = HandleUserInputInterrupt DEBOUNCE_WITH_TIMER all_low USER_BUTTON ui_init"

definition user_button_was_high :: ui_state where
  "user_button_was_high = ui_init\<lparr>USER_BUTTON_LetzterStatus := 1\<rparr>"

section \<open>ILI9341: colour burst\<close>

definition BURST_MAX_SIZE :: "32 word" where
  "BURST_MAX_SIZE = 100"

text \<open>What the display sees: the chip-select and data/command lines and the bytes of
  each SPI transmission.\<close>

datatype spi_event = ChipSelect | ChipDeselect | SetCommand | SetData | SPI_Tx "8 word list"

text \<open>\<^verbatim>\<open>HAL_SPI_Transmit\<close> takes its size as \<^verbatim>\<open>uint16_t\<close> and sends that
  many bytes from the start of the buffer (none for size 0).\<close>

definition HAL_SPI_Transmit :: "8 word list \<Rightarrow> 32 word \<Rightarrow> spi_event list" where
  "HAL_SPI_Transmit pData Size = [SPI_Tx (take (unat (ucast Size :: 16 word)) pData)]"

definition ILI9341_SendCommand :: "8 word \<Rightarrow> spi_event list" where
  "ILI9341_SendCommand cmd = [ChipSelect, SetCommand] @ HAL_SPI_Transmit [cmd] 1 @ [ChipDeselect]"

text \<open>The loop that fills \<^verbatim>\<open>burst_buffer\<close>, an array of \<open>n\<close> bytes: it stores
  at \<open>j\<close> and at \<open>j + 1\<close> for \<open>j = 0, 2, 4, \<dots>\<close> below \<open>n\<close>. The second component
  records a store at index \<open>n\<close>, one past the end of the array, which the array does
  not hold.\<close>

function burst_fill ::
  "8 word \<Rightarrow> 8 word \<Rightarrow> nat \<Rightarrow> nat \<Rightarrow> 8 word list \<times> bool \<Rightarrow> 8 word list \<times> bool" where
  "burst_fill hi lo n j (buf, past_end) =
    (if j < n
     then burst_fill hi lo n (j + 2) ((buf[j := hi])[j + 1 := lo], past_end \<or> n \<le> j + 1)
     else (buf, past_end))"
  by pat_completeness auto
termination
  by (relation "measure (\<lambda>(hi, lo, n, j, b). n - j)") auto

declare burst_fill.simps [simp del]

text \<open>The size of the buffer, as the first \<^verbatim>\<open>if\<close> of
  \<^verbatim>\<open>ILI9341_DrawColourBurst\<close> computes it.\<close>

definition Buffer_Size_of :: "32 word \<Rightarrow> 32 word" where
  "Buffer_Size_of Size = (if Size * 2 < BURST_MAX_SIZE then Size else BURST_MAX_SIZE)"

text \<open>The function returns the events on the bus and whether the fill loop stored past
  the end of the buffer. The buffer is a variable-length array without initial value;
  the loop stores to each of its cells.\<close>

definition ILI9341_DrawColourBurst :: "16 word \<Rightarrow> 32 word \<Rightarrow> spi_event list \<times> bool" where
  "ILI9341_DrawColourBurst Colour Size =
    (let Buffer_Size = Buffer_Size_of Size
     in if Buffer_Size = 0 then (ILI9341_SendCommand 0x2C, False)
        else
         (let chifted = (ucast (drop_bit 8 Colour) :: 8 word);
              filled = burst_fill chifted (ucast Colour) (unat Buffer_Size) 0
                         (replicate (unat Buffer_Size) 0, False);
              burst_buffer = fst filled;
              Sending_Size = Size * 2;
              Sending_in_Block = Sending_Size div Buffer_Size;
              Remainder_from_block = Sending_Size mod Buffer_Size
          in (ILI9341_SendCommand 0x2C @ [SetData, ChipSelect]
                @ concat (replicate (unat Sending_in_Block)
                            (HAL_SPI_Transmit burst_buffer Buffer_Size))
                @ HAL_SPI_Transmit burst_buffer Remainder_from_block
                @ [ChipDeselect],
              snd filled)))"

text \<open>The bytes sent while the data/command line selects data: the colour bytes.\<close>

fun data_bytes :: "bool \<Rightarrow> spi_event list \<Rightarrow> 8 word list" where
  "data_bytes d [] = []"
| "data_bytes d (SetCommand # es) = data_bytes False es"
| "data_bytes d (SetData # es) = data_bytes True es"
| "data_bytes d (SPI_Tx bs # es) = (if d then bs else []) @ data_bytes d es"
| "data_bytes d (ChipSelect # es) = data_bytes d es"
| "data_bytes d (ChipDeselect # es) = data_bytes d es"

text \<open>The byte stream of \<open>n\<close> pixels of one colour, high byte first.\<close>

definition pixel_stream :: "16 word \<Rightarrow> nat \<Rightarrow> 8 word list" where
  "pixel_stream Colour n =
     concat (replicate n [ucast (drop_bit 8 Colour) :: 8 word, ucast Colour])"

section \<open>W25Qxx: writing across pages\<close>

definition W25Q128_PAGE_SIZE :: "32 word" where
  "W25Q128_PAGE_SIZE = 256"

text \<open>What reaches the chip: the write enable command, the page program command with
  its address, the offset of its data pointer from the start of the caller's buffer and
  its size, and each read of the status register with the value read.\<close>

datatype flash_event =
  Ev_WriteEnable | Ev_PageProgram "32 word" nat "32 word" | Ev_ReadStatus "8 word"

text \<open>The chip is seen through its status register: \<open>sr k\<close> is the value of the
  \<open>k\<close>-th read. The state counts the reads and logs the events.\<close>

record flash_state =
  sr_reads :: nat
  flash_log :: "flash_event list"

text \<open>\<^verbatim>\<open>W25Qxx_WaitForWriteComplete\<close>, the \<^verbatim>\<open>do \<dots> while (status & 0x01)\<close>
  loop: each round reads the status register once; the loop goes round again while the
  busy bit of the value read is set, and does not return while the chip stays busy.\<close>

partial_function (option) W25Qxx_WaitForWriteComplete ::
  "(nat \<Rightarrow> 8 word) \<Rightarrow> flash_state \<Rightarrow> flash_state option" where
  "W25Qxx_WaitForWriteComplete sr s =
     (if sr (sr_reads s) AND 0x01 \<noteq> 0
      then W25Qxx_WaitForWriteComplete sr
             (s\<lparr>sr_reads := Suc (sr_reads s),
                flash_log := flash_log s @ [Ev_ReadStatus (sr (sr_reads s))]\<rparr>)
      else Some (s\<lparr>sr_reads := Suc (sr_reads s),
                   flash_log := flash_log s @ [Ev_ReadStatus (sr (sr_reads s))]\<rparr>))"

declare W25Qxx_WaitForWriteComplete.simps [code]

definition W25Qxx_WriteEnable :: "flash_state \<Rightarrow> flash_state" where
  "W25Qxx_WriteEnable s = s\<lparr>flash_log := flash_log s @ [Ev_WriteEnable]\<rparr>"

definition W25Qxx_PageProgram ::
  "(nat \<Rightarrow> 8 word) \<Rightarrow> 32 word \<Rightarrow> nat \<Rightarrow> 32 word \<Rightarrow> flash_state \<Rightarrow> flash_state option" where
  "W25Qxx_PageProgram sr address data sz s =
     W25Qxx_WaitForWriteComplete sr
       (s\<lparr>flash_log := flash_log s @ [Ev_PageProgram address data sz]\<rparr>)"

partial_function (option) WriteData_loop ::
  "(nat \<Rightarrow> 8 word) \<Rightarrow> 32 word \<Rightarrow> nat \<Rightarrow> 32 word \<Rightarrow> flash_state \<Rightarrow> flash_state option" where
  "WriteData_loop sr currentAddress data remainingBytes s =
    (if remainingBytes > 0 then
       (let pageOffset = currentAddress mod W25Q128_PAGE_SIZE;
            spaceInPage = W25Q128_PAGE_SIZE - pageOffset;
            bytesToWrite = (if remainingBytes > spaceInPage then spaceInPage else remainingBytes)
        in Option.bind
             (W25Qxx_PageProgram sr currentAddress data bytesToWrite (W25Qxx_WriteEnable s))
             (\<lambda>s1. Option.bind (W25Qxx_WaitForWriteComplete sr s1)
               (\<lambda>s2. WriteData_loop sr (currentAddress + bytesToWrite)
                        (data + unat bytesToWrite) (remainingBytes - bytesToWrite) s2)))
     else Some s)"

declare WriteData_loop.simps [code]

text \<open>\<^verbatim>\<open>W25Qxx_WriteData\<close>: the \<^verbatim>\<open>int32_t\<close> address becomes the unsigned
  \<^verbatim>\<open>currentAddress\<close> with the same bits; the data pointer starts at offset 0.\<close>

definition W25Qxx_WriteData ::
  "(nat \<Rightarrow> 8 word) \<Rightarrow> 32 word \<Rightarrow> 32 word \<Rightarrow> flash_state \<Rightarrow> flash_state option" where
  "W25Qxx_WriteData sr address sz s = WriteData_loop sr address 0 sz s"

text \<open>The page programs of a log, in order, and the values of its status reads, in
  order.\<close>

fun programs :: "flash_event list \<Rightarrow> (32 word \<times> nat \<times> 32 word) list" where
  "programs [] = []"
| "programs (Ev_PageProgram a d n # es) = (a, d, n) # programs es"
| "programs (Ev_WriteEnable # es) = programs es"
| "programs (Ev_ReadStatus w # es) = programs es"

fun status_reads :: "flash_event list \<Rightarrow> 8 word list" where
  "status_reads [] = []"
| "status_reads (Ev_ReadStatus w # es) = w # status_reads es"
| "status_reads (Ev_PageProgram a d n # es) = status_reads es"
| "status_reads (Ev_WriteEnable # es) = status_reads es"

text \<open>A busy-wait, seen as the values it read: at least one read, the busy bit set in
  every value but the last, and clear in the last.\<close>

fun wait_run :: "8 word list \<Rightarrow> bool" where
  "wait_run [] = False"
| "wait_run [w] = (w AND 0x01 = 0)"
| "wait_run (w # v # ws) = (w AND 0x01 \<noteq> 0 \<and> wait_run (v # ws))"

text \<open>The order of the events of one round of the loop of \<^verbatim>\<open>W25Qxx_WriteData\<close>:
  a write enable, then the page program, then the busy-wait inside the page program and
  the busy-wait after it, each a run of status reads that ends with the first value
  whose busy bit is clear. \<open>after_events p es\<close> is the place in the round after the
  events \<open>es\<close>, starting from place \<open>p\<close>; there is none when an event is out of
  order.\<close>

datatype round_phase = Ready | Enabled | First_wait | Second_wait

fun after_events :: "round_phase \<Rightarrow> flash_event list \<Rightarrow> round_phase option" where
  "after_events p [] = Some p"
| "after_events Ready (Ev_WriteEnable # es) = after_events Enabled es"
| "after_events Enabled (Ev_PageProgram a d n # es) = after_events First_wait es"
| "after_events First_wait (Ev_ReadStatus w # es) =
     after_events (if w AND 0x01 \<noteq> 0 then First_wait else Second_wait) es"
| "after_events Second_wait (Ev_ReadStatus w # es) =
     after_events (if w AND 0x01 \<noteq> 0 then Second_wait else Ready) es"
| "after_events p (e # es) = None"

text \<open>A log is made of whole rounds.\<close>

definition in_rounds :: "flash_event list \<Rightarrow> bool" where
  "in_rounds es \<longleftrightarrow> after_events Ready es = Some Ready"

text \<open>A list of page programs is contiguous from address \<open>a\<close> and data offset \<open>d\<close>
  when each starts where the one before it ended (addresses in 32-bit arithmetic).\<close>

fun contiguous :: "32 word \<Rightarrow> nat \<Rightarrow> (32 word \<times> nat \<times> 32 word) list \<Rightarrow> bool" where
  "contiguous a d [] = True"
| "contiguous a d ((a', d', n) # cs) =
     (a' = a \<and> d' = d \<and> contiguous (a + n) (d + unat n) cs)"

text \<open>A page program stays in its page when offset in the page plus size is at most the
  page size, and it writes at least one byte.\<close>

definition within_page :: "32 word \<times> nat \<times> 32 word \<Rightarrow> bool" where
  "within_page c = (case c of (a, d, n) \<Rightarrow> 0 < unat n \<and> unat a mod 256 + unat n \<le> 256)"

text \<open>The chip leaves the busy state after every point in time.\<close>

definition eventually_idle :: "(nat \<Rightarrow> 8 word) \<Rightarrow> bool" where
  "eventually_idle sr \<longleftrightarrow> (\<forall>k. \<exists>j\<ge>k. sr j AND 0x01 = 0)"

text \<open>The size of the next page program, as the loop computes \<^verbatim>\<open>bytesToWrite\<close>
  from the current address and the bytes that remain.\<close>

definition bytesToWrite_of :: "32 word \<Rightarrow> 32 word \<Rightarrow> 32 word" where
  "bytesToWrite_of a n =
    (if n > W25Q128_PAGE_SIZE - a mod W25Q128_PAGE_SIZE
     then W25Q128_PAGE_SIZE - a mod W25Q128_PAGE_SIZE else n)"

text \<open>The flash addresses that a list of page programs writes, when no program runs
  over the end of the 32-bit address space.\<close>

definition covered :: "(32 word \<times> nat \<times> 32 word) list \<Rightarrow> nat set" where
  "covered cs = (\<Union>c \<in> set cs. case c of (a, d, n) \<Rightarrow> {unat a ..< unat a + unat n})"

text \<open>The total size of a list of page programs.\<close>

definition total_size :: "(32 word \<times> nat \<times> 32 word) list \<Rightarrow> nat" where
  "total_size cs = sum_list (map (\<lambda>c. case c of (a, d, n) \<Rightarrow> unat n) cs)"

text \<open>A state with an empty log, after \<open>k\<close> reads of the status register.\<close>

definition flash_start :: "nat \<Rightarrow> flash_state" where
  "flash_start k = \<lparr>sr_reads = k, flash_log = []\<rparr>"

text \<open>A chip whose status register reads busy twice and idle the third time, over and
  over.\<close>

definition busy_twice :: "nat \<Rightarrow> 8 word" where
  "busy_twice k = (if k mod 3 = 2 then 0 else 1)"

section \<open>WS2812: PWM encoding of one LED\<close>

subsection \<open>The double-precision arithmetic of the duty values\<close>

text \<open>The duty values are \<^verbatim>\<open>(uint16_t)((2.0 / 3.0) * (float)(ARR_TIM1 + 1))\<close> and
  the same with \<^verbatim>\<open>1.0 / 3.0\<close>. The quotients are constants of type double, the
  conversion of \<^verbatim>\<open>ARR_TIM1 + 1\<close> (at most 65536) to float is exact, the product is
  a double product, rounded to 53 significant bits, to nearest, ties to even, and the
  cast truncates. The model computes with the integer significands.\<close>

fun bitlen :: "nat \<Rightarrow> nat" where
  "bitlen n = (if n = 0 then 0 else Suc (bitlen (n div 2)))"

declare bitlen.simps [simp del]

text \<open>Rounding \<open>N\<close> to a multiple of \<open>2 ^ sh\<close>: to the nearest one, and to the one
  with the even quotient when \<open>N\<close> is halfway.\<close>

definition round_to_multiple :: "nat \<Rightarrow> nat \<Rightarrow> nat" where
  "round_to_multiple sh N =
    (let q = N div 2 ^ sh; r = N mod 2 ^ sh
     in if 2 ^ sh < 2 * r \<or> (2 * r = 2 ^ sh \<and> odd q) then (q + 1) * 2 ^ sh else q * 2 ^ sh)"

text \<open>Rounding an integer to 53 significant bits.\<close>

definition round53 :: "nat \<Rightarrow> nat" where
  "round53 N = round_to_multiple (bitlen N - 53) N"

text \<open>The doubles \<^verbatim>\<open>2.0 / 3.0\<close> and \<^verbatim>\<open>1.0 / 3.0\<close> have the same 53-bit
  significand, 6004799503160661, with exponents \<open>-53\<close> and \<open>-54\<close>: three times the
  significand is \<open>2 ^ 54 - 1\<close>.\<close>

definition third_significand :: nat where
  "third_significand = 6004799503160661"

definition duty_one :: "16 word \<Rightarrow> 16 word" where
  "duty_one arr = of_nat (round53 (third_significand * (unat arr + 1)) div 2 ^ 53)"

definition duty_zero :: "16 word \<Rightarrow> 16 word" where
  "duty_zero arr = of_nat (round53 (third_significand * (unat arr + 1)) div 2 ^ 54)"

subsection \<open>State, environment and WS2812_Send\<close>

datatype HAL_StatusTypeDef = HAL_OK | HAL_ERROR | HAL_BUSY | HAL_TIMEOUT

datatype ws_event =
  WS_printf string | WS_HAL_Delay nat | WS_PWM_Start_DMA "16 word list" nat | WS_Error_Handler

text \<open>The globals of \<^verbatim>\<open>WS2812.c\<close>; the arrays are maps from their indices.\<close>

record ws_state =
  LED_Data :: "nat \<Rightarrow> 8 word"
  LED_Mod :: "nat \<Rightarrow> 8 word"
  pwmData :: "nat \<Rightarrow> 16 word"
  datasentflag :: "8 word"
  ARR_TIM1 :: "16 word"

text \<open>What the function meets outside: the configured period of TIM1, the status that
  starting the DMA returns, and, for the \<open>k\<close>-th test of \<^verbatim>\<open>datasentflag\<close> in the
  waiting loop, whether the pulse-finished callback has run before it.\<close>

record ws_env =
  htim1_Init_Period :: "32 word"
  dma_start_status :: HAL_StatusTypeDef
  pulse_finished :: "nat \<Rightarrow> bool"

definition WS2812_SetLED :: "int \<Rightarrow> int \<Rightarrow> int \<Rightarrow> ws_state \<Rightarrow> ws_state" where
  "WS2812_SetLED Red Green Blue s =
     s\<lparr>LED_Data := (LED_Data s)(0 := 0, 1 := of_int Green, 2 := of_int Red, 3 := of_int Blue)\<rparr>"

text \<open>The loop over the 24 colour bits, \<open>i\<close> from 23 down to 0; the first argument is
  \<open>i + 1\<close>.\<close>

fun colour_loop ::
  "nat \<Rightarrow> 32 word \<Rightarrow> 16 word \<Rightarrow> nat \<times> (nat \<Rightarrow> 16 word) \<Rightarrow> nat \<times> (nat \<Rightarrow> 16 word)" where
  "colour_loop 0 color arr (indx, pwm) = (indx, pwm)"
| "colour_loop (Suc i) color arr (indx, pwm) =
     colour_loop i color arr
       (indx + 1,
        pwm(indx := (if color AND push_bit i 1 \<noteq> 0 then duty_one arr else duty_zero arr)))"

text \<open>The loop that appends the 50 reset slots; the first argument counts what is left.\<close>

fun reset_loop :: "nat \<Rightarrow> nat \<times> (nat \<Rightarrow> 16 word) \<Rightarrow> nat \<times> (nat \<Rightarrow> 16 word)" where
  "reset_loop 0 (indx, pwm) = (indx, pwm)"
| "reset_loop (Suc i) (indx, pwm) = reset_loop i (indx + 1, pwm(indx := 0))"

text \<open>\<^verbatim>\<open>while (!datasentflag) {}\<close>: the callback sets the flag to 1; the loop does
  not return when the callback never runs.\<close>

partial_function (option) wait_datasent :: "(nat \<Rightarrow> bool) \<Rightarrow> nat \<Rightarrow> 8 word \<Rightarrow> 8 word option" where
  "wait_datasent cb k flag =
     (let flag' = (if cb k then 1 else flag)
      in if flag' \<noteq> 0 then Some flag' else wait_datasent cb (Suc k) flag')"

declare wait_datasent.simps [code]

text \<open>The three brightness-scaled bytes packed into one 24-bit colour value.\<close>

definition WS_color :: "ws_state \<Rightarrow> 32 word" where
  "WS_color s =
     push_bit 16 (ucast (LED_Mod s 1)) OR push_bit 8 (ucast (LED_Mod s 2)) OR ucast (LED_Mod s 3)"

text \<open>\<^verbatim>\<open>ARR_TIM1 = htim1.Init.Period\<close>: the 32-bit period is read into a 16-bit
  variable.\<close>

definition ARR_read :: "ws_env \<Rightarrow> 16 word" where
  "ARR_read env = ucast (htim1_Init_Period env)"

text \<open>\<^verbatim>\<open>WS2812_Send\<close> with \<^verbatim>\<open>USE_BRIGHTNESS\<close> defined as 1. The result is the
  list of calls made and the state on return; there is no state when the function does
  not return (in \<^verbatim>\<open>Error_Handler\<close>, or waiting for the flag).\<close>

definition WS2812_Send :: "ws_env \<Rightarrow> ws_state \<Rightarrow> ws_event list \<times> ws_state option" where
  "WS2812_Send env s =
    (let s1 = s\<lparr>ARR_TIM1 := ARR_read env\<rparr>
     in if ARR_TIM1 s1 = 0 then ([WS_printf ''ARR has not been initialized''], Some s1)
        else
         (let color = WS_color s1;
              l1 = colour_loop 24 color (ARR_TIM1 s1) (0, pwmData s1);
              l2 = reset_loop 50 l1;
              s2 = s1\<lparr>pwmData := snd l2\<rparr>;
              calls = [WS_HAL_Delay 1, WS_PWM_Start_DMA (map (pwmData s2) [0..<74]) 74]
          in if dma_start_status env \<noteq> HAL_OK then (calls @ [WS_Error_Handler], None)
             else (case wait_datasent (pulse_finished env) 0 (datasentflag s2) of
                     None \<Rightarrow> (calls, None)
                   | Some f \<Rightarrow> (calls, Some (s2\<lparr>datasentflag := 0\<rparr>)))))"

text \<open>Inputs for evaluation: a state with a given brightness-scaled colour and an empty
  buffer, and an environment with a given period in which the DMA starts and the
  callback runs at once.\<close>

definition ws_with_colour :: "8 word \<Rightarrow> 8 word \<Rightarrow> 8 word \<Rightarrow> ws_state" where
  "ws_with_colour g r b =
     \<lparr>LED_Data = (\<lambda>i. 0), LED_Mod = (\<lambda>i. if i = 1 then g else if i = 2 then r else if i = 3 then b else 0),
      pwmData = (\<lambda>i. 0), datasentflag = 0, ARR_TIM1 = 0\<rparr>"

definition env_with_period :: "32 word \<Rightarrow> ws_env" where
  "env_with_period p =
     \<lparr>htim1_Init_Period = p, dma_start_status = HAL_OK, pulse_finished = (\<lambda>k. True)\<rparr>"

text \<open>The buffer that the specification describes for a colour and a period: 24 duty
  values, most significant bit first, each the truncated two thirds or one third of the
  period plus one, and 50 zeros.\<close>

definition truncated_buffer :: "32 word \<Rightarrow> nat \<Rightarrow> 16 word list" where
  "truncated_buffer color P =
     map (\<lambda>i. if bit color (23 - i) then of_nat (2 * (P + 1) div 3) else of_nat ((P + 1) div 3))
       [0..<24]
     @ replicate 50 0"

text \<open>Rounding to the nearest integer, as the specification words it for the duty
  values.\<close>

definition spec_round :: "rat \<Rightarrow> int" where
  "spec_round x = \<lfloor>x + 1 / 2\<rfloor>"

section \<open>Properties of the UserInput module\<close>

lemma HandlePendingUserInput_eq:
  "HandlePendingUserInput s = s\<lparr>
     MDS_LEFT_Flanke := (if Pending_MDS_LEFT_Flanke s \<noteq> 0 then 1 else MDS_LEFT_Flanke s),
     MDS_RIGHT_Flanke := (if Pending_MDS_RIGHT_Flanke s \<noteq> 0 then 1 else MDS_RIGHT_Flanke s),
     MDS_UP_Flanke := (if Pending_MDS_UP_Flanke s \<noteq> 0 then 1 else MDS_UP_Flanke s),
     MDS_DOWN_Flanke := (if Pending_MDS_DOWN_Flanke s \<noteq> 0 then 1 else MDS_DOWN_Flanke s),
     MDS_BUTTON_Flanke := (if Pending_MDS_BUTTON_Flanke s \<noteq> 0 then 1 else MDS_BUTTON_Flanke s),
     USER_BUTTON_Flanke := (if Pending_USER_BUTTON_Flanke s \<noteq> 0 then 1 else USER_BUTTON_Flanke s),
     Pending_MDS_LEFT_Flanke := 0, Pending_MDS_RIGHT_Flanke := 0, Pending_MDS_UP_Flanke := 0,
     Pending_MDS_DOWN_Flanke := 0, Pending_MDS_BUTTON_Flanke := 0,
     Pending_USER_BUTTON_Flanke := 0\<rparr>"
  by (simp add: HandlePendingUserInput_def Let_def)

text \<open>Claim C10. For every state of the six pending and the six confirmed flags, one call
  of \<^verbatim>\<open>HandlePendingUserInput\<close> sets the confirmed flag of exactly the channels
  whose pending flag was set and leaves the other confirmed flags as they were, clears
  every pending flag, clears no confirmed flag that was set, and a second call right
  after it changes nothing.\<close>

theorem HandlePendingUserInput_promotes:
  "(\<forall>c \<in> set channels.
      Flanke_of c (HandlePendingUserInput s) = (if Pending_of c s \<noteq> 0 then 1 else Flanke_of c s)
    \<and> Pending_of c (HandlePendingUserInput s) = 0
    \<and> (Flanke_of c s \<noteq> 0 \<longrightarrow> Flanke_of c (HandlePendingUserInput s) \<noteq> 0))
   \<and> HandlePendingUserInput (HandlePendingUserInput s) = HandlePendingUserInput s"
proof -
  have idem: "HandlePendingUserInput (HandlePendingUserInput s) = HandlePendingUserInput s"
    by (simp add: HandlePendingUserInput_eq)
  show ?thesis
    using idem by (simp add: channels_def HandlePendingUserInput_eq)
qed

theorem HandlePendingUserInput_promotes_witness:
  "MDS_UP \<in> set channels
   \<and> Pending_of MDS_UP (ui_init\<lparr>Pending_MDS_UP_Flanke := 1, MDS_DOWN_Flanke := 1\<rparr>) \<noteq> 0
   \<and> Flanke_of MDS_UP
        (HandlePendingUserInput (ui_init\<lparr>Pending_MDS_UP_Flanke := 1, MDS_DOWN_Flanke := 1\<rparr>)) = 1
   \<and> Flanke_of MDS_DOWN
        (HandlePendingUserInput (ui_init\<lparr>Pending_MDS_UP_Flanke := 1, MDS_DOWN_Flanke := 1\<rparr>)) \<noteq> 0
   \<and> Pending_of MDS_UP
        (HandlePendingUserInput (ui_init\<lparr>Pending_MDS_UP_Flanke := 1, MDS_DOWN_Flanke := 1\<rparr>)) = 0"
  using HandlePendingUserInput_promotes
          [of "ui_init\<lparr>Pending_MDS_UP_Flanke := 1, MDS_DOWN_Flanke := 1\<rparr>"]
  by (simp add: channels_def ui_init_def)

subsection \<open>One debounce at a time\<close>

lemma HandleFlanke_timer_sets_latch:
  "debounce_in_progress (HandleFlanke DEBOUNCE_WITH_TIMER env pin c r s) = 1
   \<and> LetzterUserInput (HandleFlanke DEBOUNCE_WITH_TIMER env pin c r s) = c
   \<and> LetzterUserInputPin (HandleFlanke DEBOUNCE_WITH_TIMER env pin c r s) = pin
   \<and> tim6_CEN (HandleFlanke DEBOUNCE_WITH_TIMER env pin c r s)
   \<and> tim6_CNT (HandleFlanke DEBOUNCE_WITH_TIMER env pin c r s) = 0"
  by (simp add: HandleFlanke_def)

lemma latched_interrupt:
  "debounce_in_progress s \<noteq> 0 \<Longrightarrow> HandleUserInputInterrupt DEBOUNCE_WITH_TIMER env u s = s"
  by (simp add: HandleUserInputInterrupt_def)

lemma latched_exti:
  "debounce_in_progress s \<noteq> 0 \<Longrightarrow> UserInput_Interrupt DEBOUNCE_WITH_TIMER env pin s = s"
  by (simp add: UserInput_Interrupt_def latched_interrupt)








subsection \<open>The expiry of the debounce timer\<close>


lemma expiry_level_held:
  assumes "c \<in> set channels" and "LetzterUserInput s = c"
    and "HAL_GPIO_ReadPin env s (LetzterUserInputPin s)
           = (if c = USER_BUTTON then GPIO_PIN_RESET else GPIO_PIN_SET)"
  shows "Pending_of c (HandleDebouncedUserInput env s) = 1"
  using assms by (auto simp: channels_def HandleDebouncedUserInput_def)

lemma expiry_joystick_released:
  assumes "LetzterUserInput s \<noteq> USER_BUTTON"
    and "HAL_GPIO_ReadPin env s (LetzterUserInputPin s) = GPIO_PIN_RESET"
  shows "HandleDebouncedUserInput env s =
           s\<lparr>LetzterUserInput := USER_INPUT_NONE,
             LetzterUserInputPin := \<lparr>GPIOx = GPIO_NULL, GPIO_Pin = 0\<rparr>\<rparr>"
  using assms by (simp add: HandleDebouncedUserInput_def)

text \<open>Claim C2, at the input where the code departs from it. The interrupt of the user
  button begins a debounce; when the timer expires the button is released (the line
  reads high). The callback clears the latch and stops the timer and sets no pending
  flag, but the recorded channel is still USER_BUTTON and the recorded pin is still the
  pin of the user button: they are not cleared to none.\<close>

theorem expiry_user_button_released_keeps_record:
  "LetzterUserInput user_button_started = USER_BUTTON
   \<and> HAL_GPIO_ReadPin all_high user_button_started (LetzterUserInputPin user_button_started)
       = GPIO_PIN_SET
   \<and> LetzterUserInput
        (HAL_TIM_PeriodElapsedCallback DEBOUNCE_WITH_TIMER all_high TIM6 user_button_started)
       = USER_BUTTON
   \<and> LetzterUserInputPin
        (HAL_TIM_PeriodElapsedCallback DEBOUNCE_WITH_TIMER all_high TIM6 user_button_started)
       = pin_of USER_BUTTON
   \<and> Pending_USER_BUTTON_Flanke
        (HAL_TIM_PeriodElapsedCallback DEBOUNCE_WITH_TIMER all_high TIM6 user_button_started)
       = 0
   \<and> debounce_in_progress
        (HAL_TIM_PeriodElapsedCallback DEBOUNCE_WITH_TIMER all_high TIM6 user_button_started)
       = 0
   \<and> \<not> tim6_CEN
        (HAL_TIM_PeriodElapsedCallback DEBOUNCE_WITH_TIMER all_high TIM6 user_button_started)"
  by (simp add: user_button_started_def HandleUserInputInterrupt_def HandleFlanke_def
        HAL_TIM_PeriodElapsedCallback_def HandleDebouncedUserInput_def HAL_GPIO_ReadPin_def
        all_high_def ui_init_def)

subsection \<open>Polling\<close>

lemma PollingUserInput_structure:
  "PollingUserInput m env s =
    (if m = DEBOUNCE_WITH_TIMER \<and> debounce_in_progress s \<noteq> 0 then s
     else remember_levels
       (let s1 = sample_levels env s in
        if qualifying env s MDS_LEFT
        then HandleFlanke m env (pin_of MDS_LEFT) MDS_LEFT (Ref_Flanke MDS_LEFT) s1
        else if qualifying env s MDS_RIGHT
        then HandleFlanke m env (pin_of MDS_RIGHT) MDS_RIGHT (Ref_Flanke MDS_RIGHT) s1
        else if qualifying env s MDS_UP
        then HandleFlanke m env (pin_of MDS_UP) MDS_UP (Ref_Flanke MDS_UP) s1
        else if qualifying env s MDS_DOWN
        then HandleFlanke m env (pin_of MDS_DOWN) MDS_DOWN (Ref_Flanke MDS_DOWN) s1
        else if qualifying env s MDS_BUTTON
        then HandleFlanke m env (pin_of MDS_BUTTON) MDS_BUTTON (Ref_Flanke MDS_BUTTON) s1
        else if qualifying env s USER_BUTTON
        then HandleFlanke m env (pin_of USER_BUTTON) USER_BUTTON (Ref_Flanke USER_BUTTON) s1
        else s1))"
proof -
  have pv: "\<And>x. (pin_val x = 1) = (x = GPIO_PIN_SET)"
    "\<And>x. (pin_val x = 0) = (x = GPIO_PIN_RESET)"
    subgoal for x by (cases x) simp_all
    subgoal for x by (cases x) simp_all
    done
  show ?thesis
    unfolding PollingUserInput_def Let_def
    by (simp add: qualifying_def sample_levels_def remember_levels_def pv
          del: pin_of.simps cong: if_cong)
qed

text \<open>Claim C4, as stated, fails: with every line high and every previous level 0, no
  debounce in progress, MDS_LEFT and MDS_RIGHT both show a rising edge in the same call,
  and only MDS_LEFT begins a debounce. With the timer method the recorded channel is
  MDS_LEFT and not MDS_RIGHT; with the delay method, although the level of MDS_RIGHT
  holds, only the flag of MDS_LEFT is set, and one delay of 50 ticks has passed.\<close>

theorem PollingUserInput_simultaneous_edges_counterexample:
  "debounce_in_progress ui_init = 0
   \<and> qualifying all_high ui_init MDS_LEFT \<and> qualifying all_high ui_init MDS_RIGHT
   \<and> debouncing (PollingUserInput DEBOUNCE_WITH_TIMER all_high ui_init) MDS_LEFT
   \<and> \<not> debouncing (PollingUserInput DEBOUNCE_WITH_TIMER all_high ui_init) MDS_RIGHT
   \<and> MDS_LEFT_Flanke (PollingUserInput DEBOUNCE_WITH_DELAY all_high ui_init) = 1
   \<and> MDS_RIGHT_Flanke (PollingUserInput DEBOUNCE_WITH_DELAY all_high ui_init) = 0
   \<and> uwTick (PollingUserInput DEBOUNCE_WITH_DELAY all_high ui_init) = 50"
  by (simp add: PollingUserInput_def HandleFlanke_def HAL_GPIO_ReadPin_def HAL_Delay_def
        qualifying_def debouncing_def all_high_def ui_init_def Let_def)

text \<open>Claim C4, amended. With the timer method and a debounce in progress,
  \<^verbatim>\<open>PollingUserInput\<close> returns at once, without sampling. Otherwise it samples the
  six levels once, begins a debounce for the first channel, in the order MDS_LEFT,
  MDS_RIGHT, MDS_UP, MDS_DOWN, MDS_BUTTON, USER_BUTTON, that shows a qualifying
  transition (rising for the five joystick lines, falling for USER_BUTTON) and for no
  other channel, and stores the six samples as previous levels.\<close>

theorem PollingUserInput_first_only:
  "PollingUserInput m env s = poll_first_only m env s"
  unfolding PollingUserInput_structure poll_first_only_def
  by (simp add: channels_def Let_def del: pin_of.simps)

subsection \<open>The delay method\<close>

lemma HandleFlanke_delay_joystick:
  assumes "c \<noteq> USER_BUTTON"
  shows "HandleFlanke DEBOUNCE_WITH_DELAY env pin c r s =
          (if env (uwTick s + 50) pin = GPIO_PIN_SET
           then store_flag r 1 (HAL_Delay 50 s) else HAL_Delay 50 s)"
  using assms by (simp add: HandleFlanke_def HAL_GPIO_ReadPin_def HAL_Delay_def Let_def)

lemma HandleFlanke_delay_user_button:
  "HandleFlanke DEBOUNCE_WITH_DELAY env pin USER_BUTTON r s = store_flag r 1 (HAL_Delay 50 s)"
proof -
  have "\<And>x. x = GPIO_PIN_SET \<or> x = GPIO_PIN_RESET"
    subgoal for x by (cases x) simp_all
    done
  then show ?thesis
    by (simp add: HandleFlanke_def Let_def)
qed

text \<open>Claim C6, at the input where the code departs from it. With the delay method the
  user button shows its falling edge at tick 0 and is released before the 50 ticks are
  over, so that the second reading is high: the level did not hold. The poll waits the
  50 ticks and sets \<^verbatim>\<open>USER_BUTTON_Flanke\<close> all the same.\<close>

theorem delay_debounce_user_button_released_sets_flag:
  "qualifying button_tapped user_button_was_high USER_BUTTON
   \<and> uwTick (PollingUserInput DEBOUNCE_WITH_DELAY button_tapped user_button_was_high) = 50
   \<and> button_tapped 50 (pin_of USER_BUTTON) = GPIO_PIN_SET
   \<and> USER_BUTTON_Flanke user_button_was_high = 0
   \<and> USER_BUTTON_Flanke (PollingUserInput DEBOUNCE_WITH_DELAY button_tapped user_button_was_high)
       = 1"
  by (simp add: PollingUserInput_def HandleFlanke_def HAL_GPIO_ReadPin_def HAL_Delay_def
        qualifying_def button_tapped_def user_button_was_high_def ui_init_def Let_def
        GPIO_PIN_5_def GPIO_PIN_10_def GPIO_PIN_13_def GPIO_PIN_14_def GPIO_PIN_15_def)

subsection \<open>Edges under the latch\<close>










section \<open>Properties of the colour burst\<close>

lemma burst_fill_pattern:
  "length buf = n \<Longrightarrow>
   fst (burst_fill hi lo n j (buf, pe)) =
     map (\<lambda>i. if i < j then buf ! i else if even (i - j) then hi else lo) [0..<n]"
proof (induction hi lo n j "(buf, pe)" arbitrary: buf pe rule: burst_fill.induct)
  case (1 hi lo n j buf pe)
  show ?case
  proof (cases "j < n")
    case False
    then have "map (\<lambda>i. if i < j then buf ! i else if even (i - j) then hi else lo) [0..<n]
        = map (\<lambda>i. buf ! i) [0..<n]"
      by (intro map_cong) auto
    also have "\<dots> = buf" using "1.prems" map_nth [of buf] by simp
    finally show ?thesis using False by (subst burst_fill.simps) simp
  next
    case True
    let ?buf' = "(buf[j := hi])[j + 1 := lo]"
    have len: "length ?buf' = n" using "1.prems" by simp
    have "fst (burst_fill hi lo n j (buf, pe)) =
           fst (burst_fill hi lo n (j + 2) (?buf', pe \<or> n \<le> j + 1))"
      using True by (subst burst_fill.simps) simp
    also have "\<dots> = map (\<lambda>i. if i < j + 2 then ?buf' ! i
                                 else if even (i - (j + 2)) then hi else lo) [0..<n]"
      using "1.hyps" [OF True len] .
    also have "\<dots> = map (\<lambda>i. if i < j then buf ! i else if even (i - j) then hi else lo) [0..<n]"
    proof (intro map_cong refl)
      fix i assume "i \<in> set [0..<n]"
      then have i: "i < n" by simp
      consider "i < j" | "i = j" | "i = j + 1" | "j + 2 \<le> i" by linarith
      then show "(if i < j + 2 then ?buf' ! i else if even (i - (j + 2)) then hi else lo)
          = (if i < j then buf ! i else if even (i - j) then hi else lo)"
      proof cases
        case 1 then show ?thesis by simp
      next
        case 2 then show ?thesis using i "1.prems" by simp
      next
        case 3 then show ?thesis using i "1.prems" by simp
      next
        case 4
        then obtain d where d: "i = j + 2 + d" using le_Suc_ex by blast
        show ?thesis by (simp add: d)
      qed
    qed
    finally show ?thesis .
  qed
qed

lemma alternating_bytes:
  "map (\<lambda>i. if even i then hi else lo) [0..<2 * k] = concat (replicate k [hi, lo])"
proof (induction k)
  case 0
  show ?case by simp
next
  case (Suc k)
  have "[0..<2 * Suc k] = [0..<2 * k] @ [2 * k, 2 * k + 1]" by simp
  then have "map (\<lambda>i. if even i then hi else lo) [0..<2 * Suc k]
      = map (\<lambda>i. if even i then hi else lo) [0..<2 * k] @ [hi, lo]"
    by simp
  also have "\<dots> = concat (replicate k [hi, lo]) @ concat (replicate 1 [hi, lo])"
    by (simp add: Suc.IH)
  also have "\<dots> = concat (replicate (k + 1) [hi, lo])"
    by (simp only: replicate_add concat_append)
  finally show ?case by simp
qed

lemma data_bytes_blocks:
  "data_bytes True (concat (replicate b [SPI_Tx bs]) @ es) =
     concat (replicate b bs) @ data_bytes True es"
  by (induction b) simp_all

lemma data_bytes_replicate:
  "data_bytes True (replicate b (SPI_Tx bs) @ es) =
     concat (replicate b bs) @ data_bytes True es"
  by (induction b) simp_all

lemma pixel_stream_add:
  "pixel_stream c a @ pixel_stream c b = pixel_stream c (a + b)"
  by (simp add: pixel_stream_def replicate_add)

lemma pixel_stream_blocks:
  "concat (replicate b (pixel_stream c k)) = pixel_stream c (b * k)"
  by (induction b) (simp_all add: pixel_stream_add, simp add: pixel_stream_def)


lemma burst_buffer_even:
  "fst (burst_fill (ucast (drop_bit 8 c)) (ucast c) (2 * k) 0 (replicate (2 * k) 0, False))
     = pixel_stream c k"
  by (simp add: burst_fill_pattern alternating_bytes pixel_stream_def)

lemma pixel_stream_take: "r \<le> k \<Longrightarrow> take (2 * r) (pixel_stream c k) = pixel_stream c r"
  by (simp add: pixel_stream_def alternating_bytes [symmetric] take_map)

lemma pixel_stream_length: "length (pixel_stream c k) = 2 * k"
  by (simp add: pixel_stream_def alternating_bytes [symmetric])

text \<open>Where the bytes sent are the pixels, high byte then low byte: no pixels, an even
  number of pixels below 50, and 50 pixels or more (below \<open>2 ^ 31\<close>, so that twice
  the count fits 32 bits).\<close>

lemma colour_burst_no_pixels:
  "data_bytes False (fst (ILI9341_DrawColourBurst c 0)) = []"
  by (simp add: ILI9341_DrawColourBurst_def Buffer_Size_of_def BURST_MAX_SIZE_def
        ILI9341_SendCommand_def HAL_SPI_Transmit_def)

lemma colour_burst_large:
  assumes "50 \<le> unat Size" "unat Size < 2 ^ 31"
  shows "data_bytes False (fst (ILI9341_DrawColourBurst c Size)) = pixel_stream c (unat Size)"
proof -
  define N where "N = unat Size"
  have u2: "unat (Size * 2) = 2 * N"
    using assms(2) by (simp add: N_def unat_word_ariths)
  have ge: "\<not> Size * 2 < 100"
    using assms(1) u2 by (simp add: word_less_nat_alt N_def)
  have bs: "Buffer_Size_of Size = 100"
    using ge by (simp add: Buffer_Size_of_def BURST_MAX_SIZE_def)
  have buf: "fst (burst_fill (ucast (drop_bit 8 c)) (ucast c) 100 0 (replicate 100 0, False))
              = pixel_stream c 50"
    using burst_buffer_even [of c 50] by simp
  have b: "unat (Size * 2 div 100) = 2 * N div 100"
    by (simp add: unat_div u2)
  have r: "unat (ucast (Size * 2 mod 100) :: 16 word) = 2 * N mod 100"
  proof -
    have "unat (Size * 2 mod 100) = 2 * N mod 100" by (simp add: unat_mod u2)
    moreover have "2 * N mod 100 < 2 ^ 16" by simp
    ultimately show ?thesis
      by (simp add: unsigned_ucast_eq take_bit_nat_eq_self)
  qed
  have r2: "2 * N mod 100 = 2 * (N mod 50)"
    using mult_mod_right [of 2 N 50] by simp
  have le: "N mod 50 \<le> 50" by simp
  have "2 * N div 100 = N div 50"
    using div_mult_mult1 [of 2 N 50] by simp
  then have sum: "2 * N div 100 * 50 + N mod 50 = N" by simp
  have "data_bytes False (fst (ILI9341_DrawColourBurst c Size))
      = concat (replicate (2 * N div 100) (pixel_stream c 50)) @ take (2 * (N mod 50)) (pixel_stream c 50)"
    by (simp add: ILI9341_DrawColourBurst_def bs Let_def buf b r r2 ILI9341_SendCommand_def
          HAL_SPI_Transmit_def data_bytes_blocks data_bytes_replicate pixel_stream_length)
  also have "\<dots> = pixel_stream c (2 * N div 100 * 50 + N mod 50)"
    by (simp only: pixel_stream_blocks pixel_stream_take [OF le] pixel_stream_add)
  finally have "data_bytes False (fst (ILI9341_DrawColourBurst c Size))
      = pixel_stream c (2 * N div 100 * 50 + N mod 50)" .
  then have "data_bytes False (fst (ILI9341_DrawColourBurst c Size)) = pixel_stream c N"
    by (simp only: sum)
  then show ?thesis by (simp only: N_def)
qed


lemma colour_burst_small_even:
  assumes "unat Size = 2 * k" "0 < k" "k < 25"
  shows "data_bytes False (fst (ILI9341_DrawColourBurst c Size)) = pixel_stream c (unat Size)"
proof -
  have u2: "unat (Size * 2) = 4 * k"
    using assms by (simp add: unat_word_ariths)
  have lt: "Size * 2 < 100"
    using assms u2 by (simp add: word_less_nat_alt)
  have bs: "Buffer_Size_of Size = Size"
    using lt by (simp add: Buffer_Size_of_def BURST_MAX_SIZE_def)
  have nz: "Size \<noteq> 0" using assms by auto
  have b: "unat (Size * 2 div Size) = 2"
    using assms by (simp add: unat_div u2)
  have r: "unat (ucast (Size * 2 mod Size) :: 16 word) = 0"
    using assms by (simp add: unsigned_ucast_eq unat_mod u2)
  have s16: "unat (ucast Size :: 16 word) = 2 * k"
    using assms by (simp add: unsigned_ucast_eq take_bit_nat_eq_self)
  have rep2: "concat (replicate 2 x) = x @ x" for x :: "8 word list"
    by (simp add: numeral_2_eq_2)
  have "data_bytes False (fst (ILI9341_DrawColourBurst c Size))
      = pixel_stream c k @ pixel_stream c k"
    using nz
    by (simp add: ILI9341_DrawColourBurst_def bs Let_def assms(1) burst_buffer_even b r s16
          ILI9341_SendCommand_def HAL_SPI_Transmit_def pixel_stream_length
          data_bytes_replicate rep2)
  then show ?thesis
    by (simp add: pixel_stream_add assms(1) mult_2)
qed

text \<open>Claim C7, at inputs where the code departs from it. For one pixel of colour
  0x1234 the buffer has one byte, the store of the low byte falls past its end, and the
  two bytes sent are the high byte twice, not high byte and low byte; for three pixels
  the six bytes sent are the three-byte buffer twice, so that the second and third pair
  are not (high, low). The number of bytes is \<open>2 \<times> N\<close> in both cases.\<close>

theorem colour_burst_odd_count_breaks_pairs:
  "data_bytes False (fst (ILI9341_DrawColourBurst 0x1234 1)) = [0x12, 0x12]
   \<and> pixel_stream 0x1234 1 = [0x12, 0x34]
   \<and> data_bytes False (fst (ILI9341_DrawColourBurst 0x1234 3))
       = [0x12, 0x34, 0x12, 0x12, 0x34, 0x12]
   \<and> pixel_stream 0x1234 3 = [0x12, 0x34, 0x12, 0x34, 0x12, 0x34]
   \<and> snd (ILI9341_DrawColourBurst 0x1234 1)"
  by code_simp

text \<open>Claim C8, at an input where the code departs from it. For ten pixels the minimum
  of \<open>pixelCount \<times> 2\<close> and \<^verbatim>\<open>BURST_MAX_SIZE\<close> is 20, and the buffer size that the
  function computes is 10: the twenty bytes go out as two transmissions of ten.\<close>

theorem colour_burst_buffer_size_ten_pixels:
  "Buffer_Size_of 10 = 10
   \<and> min (10 * 2) BURST_MAX_SIZE = 20
   \<and> fst (ILI9341_DrawColourBurst 0x1234 10) =
       [ChipSelect, SetCommand, SPI_Tx [0x2C], ChipDeselect, SetData, ChipSelect,
        SPI_Tx [0x12, 0x34, 0x12, 0x34, 0x12, 0x34, 0x12, 0x34, 0x12, 0x34],
        SPI_Tx [0x12, 0x34, 0x12, 0x34, 0x12, 0x34, 0x12, 0x34, 0x12, 0x34],
        SPI_Tx [], ChipDeselect]"
  by code_simp

section \<open>Properties of the flash writer\<close>

lemma wait_run_Cons: "w AND 0x01 \<noteq> 0 \<Longrightarrow> wait_run ws \<Longrightarrow> wait_run (w # ws)"
  by (cases ws) simp_all

lemma WaitForWriteComplete_idle_at:
  assumes "sr j AND 0x01 = 0" and "sr_reads s \<le> j"
  shows "\<exists>s'. W25Qxx_WaitForWriteComplete sr s = Some s'
           \<and> sr_reads s < sr_reads s'
           \<and> wait_run (map sr [sr_reads s ..< sr_reads s'])
           \<and> flash_log s' = flash_log s @ map Ev_ReadStatus (map sr [sr_reads s ..< sr_reads s'])"
  using assms
proof (induction "j - sr_reads s" arbitrary: s)
  case 0
  then have idle: "sr (sr_reads s) AND 0x01 = 0" by simp
  let ?s' = "s\<lparr>sr_reads := Suc (sr_reads s),
               flash_log := flash_log s @ [Ev_ReadStatus (sr (sr_reads s))]\<rparr>"
  have "W25Qxx_WaitForWriteComplete sr s = Some ?s'"
    using idle by (subst W25Qxx_WaitForWriteComplete.simps) simp
  moreover have "wait_run (map sr [sr_reads s ..< sr_reads ?s'])"
    using idle by simp
  moreover have "flash_log ?s' = flash_log s @ map Ev_ReadStatus (map sr [sr_reads s ..< sr_reads ?s'])"
    by simp
  ultimately show ?case by (intro exI [of _ ?s']) simp
next
  case (Suc d)
  let ?s1 = "s\<lparr>sr_reads := Suc (sr_reads s),
               flash_log := flash_log s @ [Ev_ReadStatus (sr (sr_reads s))]\<rparr>"
  show ?case
  proof (cases "sr (sr_reads s) AND 0x01 = 0")
    case True
    have "W25Qxx_WaitForWriteComplete sr s = Some ?s1"
      using True by (subst W25Qxx_WaitForWriteComplete.simps) simp
    moreover have "wait_run (map sr [sr_reads s ..< sr_reads ?s1])"
      using True by simp
    ultimately show ?thesis by (intro exI [of _ ?s1]) simp
  next
    case False
    have d: "d = j - sr_reads ?s1" using Suc.hyps(2) by simp
    have le: "sr_reads ?s1 \<le> j" using Suc.hyps(2) by simp
    from Suc.hyps(1) [OF d Suc.prems(1) le]
    obtain s' where s': "W25Qxx_WaitForWriteComplete sr ?s1 = Some s'"
      "sr_reads ?s1 < sr_reads s'"
      "wait_run (map sr [sr_reads ?s1 ..< sr_reads s'])"
      "flash_log s' = flash_log ?s1 @ map Ev_ReadStatus (map sr [sr_reads ?s1 ..< sr_reads s'])"
      by blast
    have lt: "sr_reads s < sr_reads s'" using s'(2) by simp
    have upt: "[sr_reads s ..< sr_reads s'] = sr_reads s # [Suc (sr_reads s) ..< sr_reads s']"
      using lt by (simp add: upt_conv_Cons)
    have "W25Qxx_WaitForWriteComplete sr s = Some s'"
      using False s'(1) by (subst W25Qxx_WaitForWriteComplete.simps) simp
    moreover have "wait_run (map sr [sr_reads s ..< sr_reads s'])"
      unfolding upt using False s'(3) by (simp add: wait_run_Cons)
    moreover have "flash_log s' = flash_log s @ map Ev_ReadStatus (map sr [sr_reads s ..< sr_reads s'])"
      unfolding upt using s'(4) by simp
    ultimately show ?thesis using lt by blast
  qed
qed

lemma WaitForWriteComplete_returns:
  assumes "eventually_idle sr"
  shows "\<exists>s'. W25Qxx_WaitForWriteComplete sr s = Some s'
           \<and> sr_reads s < sr_reads s'
           \<and> wait_run (map sr [sr_reads s ..< sr_reads s'])
           \<and> flash_log s' = flash_log s @ map Ev_ReadStatus (map sr [sr_reads s ..< sr_reads s'])"
proof -
  from assms obtain j where "sr_reads s \<le> j" "sr j AND 0x01 = 0"
    unfolding eventually_idle_def by blast
  then show ?thesis using WaitForWriteComplete_idle_at by blast
qed

lemma after_events_append:
  "after_events p (xs @ ys) =
     (case after_events p xs of None \<Rightarrow> None | Some q \<Rightarrow> after_events q ys)"
  by (induction p xs rule: after_events.induct) simp_all

lemma after_first_wait:
  "wait_run ws \<Longrightarrow> after_events First_wait (map Ev_ReadStatus ws) = Some Second_wait"
  by (induction ws rule: wait_run.induct) simp_all

lemma after_second_wait:
  "wait_run ws \<Longrightarrow> after_events Second_wait (map Ev_ReadStatus ws) = Some Ready"
  by (induction ws rule: wait_run.induct) simp_all

lemma programs_append: "programs (xs @ ys) = programs xs @ programs ys"
  by (induction xs rule: programs.induct) simp_all

lemma status_reads_append: "status_reads (xs @ ys) = status_reads xs @ status_reads ys"
  by (induction xs rule: status_reads.induct) simp_all

lemma programs_reads: "programs (map Ev_ReadStatus ws) = []"
  by (induction ws) simp_all

lemma status_reads_reads: "status_reads (map Ev_ReadStatus ws) = ws"
  by (induction ws) simp_all

lemma upt_join: "a \<le> b \<Longrightarrow> b \<le> c \<Longrightarrow> [a ..< b] @ [b ..< c] = [a ..< c]" for a b c :: nat
  using upt_add_eq_append [of a b "c - b"] by simp

text \<open>One round of the loop.\<close>

lemma WriteData_loop_step:
  assumes idle: "eventually_idle sr" and n: "n \<noteq> 0"
  shows "\<exists>s1 es. flash_log s1 = flash_log s @ es
          \<and> after_events Ready es = Some Ready
          \<and> programs es = [(a, d, bytesToWrite_of a n)]
          \<and> status_reads es = map sr [sr_reads s ..< sr_reads s1]
          \<and> sr_reads s \<le> sr_reads s1
          \<and> WriteData_loop sr a d n s =
              WriteData_loop sr (a + bytesToWrite_of a n) (d + unat (bytesToWrite_of a n))
                (n - bytesToWrite_of a n) s1"
proof -
  let ?b = "bytesToWrite_of a n"
  let ?s0 = "(W25Qxx_WriteEnable s)\<lparr>flash_log := flash_log (W25Qxx_WriteEnable s) @ [Ev_PageProgram a d ?b]\<rparr>"
  have r0: "sr_reads ?s0 = sr_reads s" by (simp add: W25Qxx_WriteEnable_def)
  from WaitForWriteComplete_returns [OF idle, of ?s0]
  obtain s1 where s1: "W25Qxx_WaitForWriteComplete sr ?s0 = Some s1"
    "sr_reads s < sr_reads s1"
    "wait_run (map sr [sr_reads s ..< sr_reads s1])"
    "flash_log s1 = flash_log ?s0 @ map Ev_ReadStatus (map sr [sr_reads s ..< sr_reads s1])"
    unfolding r0 by blast
  from WaitForWriteComplete_returns [OF idle, of s1]
  obtain s2 where s2: "W25Qxx_WaitForWriteComplete sr s1 = Some s2"
    "sr_reads s1 < sr_reads s2"
    "wait_run (map sr [sr_reads s1 ..< sr_reads s2])"
    "flash_log s2 = flash_log s1 @ map Ev_ReadStatus (map sr [sr_reads s1 ..< sr_reads s2])"
    by blast
  define w1 where "w1 = map sr [sr_reads s ..< sr_reads s1]"
  define w2 where "w2 = map sr [sr_reads s1 ..< sr_reads s2]"
  define es where "es = [Ev_WriteEnable, Ev_PageProgram a d ?b] @ map Ev_ReadStatus w1
                          @ map Ev_ReadStatus w2"
  have log: "flash_log s2 = flash_log s @ es"
    using s1(4) s2(4) by (simp add: es_def w1_def w2_def W25Qxx_WriteEnable_def)
  have ph: "after_events Ready es = Some Ready"
    using s1(3) s2(3)
    by (simp add: es_def w1_def [symmetric] w2_def [symmetric] after_events_append
          after_first_wait after_second_wait)
  have pr: "programs es = [(a, d, ?b)]"
    by (simp add: es_def programs_append programs_reads)
  have "w1 @ w2 = map sr [sr_reads s ..< sr_reads s2]"
    unfolding w1_def w2_def map_append [symmetric]
    using s1(2) s2(2) by (simp add: upt_join)
  then have st: "status_reads es = map sr [sr_reads s ..< sr_reads s2]"
    by (simp add: es_def status_reads_append status_reads_reads)
  have le: "sr_reads s \<le> sr_reads s2" using s1(2) s2(2) by simp
  have "WriteData_loop sr a d n s = WriteData_loop sr (a + ?b) (d + unat ?b) (n - ?b) s2"
    using n s1(1) s2(1)
    by (subst WriteData_loop.simps)
       (simp add: Let_def W25Qxx_PageProgram_def bytesToWrite_of_def word_greater_zero_iff)
  with log ph pr st le show ?thesis by blast
qed

lemma bytesToWrite_of_unat:
  "unat (bytesToWrite_of a n) =
     (if 256 - unat a mod 256 < unat n then 256 - unat a mod 256 else unat n)"
proof -
  have m: "unat (a mod 256) = unat a mod 256"
    by (simp add: unat_mod)
  have le: "a mod 256 \<le> 256"
    by (simp add: word_le_nat_alt m)
  have sp: "unat (256 - a mod 256) = 256 - unat a mod 256"
    using le by (simp add: unat_sub m)
  show ?thesis
    using sp by (simp add: bytesToWrite_of_def W25Q128_PAGE_SIZE_def word_less_nat_alt)
qed

lemma bytesToWrite_of_bounds:
  assumes "n \<noteq> 0"
  shows "0 < unat (bytesToWrite_of a n)" and "unat (bytesToWrite_of a n) \<le> unat n"
    and "unat a mod 256 + unat (bytesToWrite_of a n) \<le> 256"
proof -
  define x where "x = unat a mod 256"
  have lt: "x < 256" by (simp add: x_def)
  have n0: "0 < unat n" using assms by (simp add: unat_gt_0)
  have b: "unat (bytesToWrite_of a n) = (if 256 - x < unat n then 256 - x else unat n)"
    by (simp add: bytesToWrite_of_unat x_def)
  show "0 < unat (bytesToWrite_of a n)"
    using n0 lt by (simp add: b)
  show "unat (bytesToWrite_of a n) \<le> unat n"
    by (simp add: b)
  have "x + unat (bytesToWrite_of a n) \<le> 256"
  proof (cases "256 - x < unat n")
    case True
    then show ?thesis using lt by (simp add: b)
  next
    case False
    then have "unat n \<le> 256 - x" by simp
    then have "x + unat n \<le> 256" using lt by linarith
    with False show ?thesis by (simp add: b)
  qed
  then show "unat a mod 256 + unat (bytesToWrite_of a n) \<le> 256"
    by (simp add: x_def)
qed


lemma WriteData_loop_returns:
  assumes idle: "eventually_idle sr"
  shows "\<exists>s' es. WriteData_loop sr a d n s = Some s'
           \<and> flash_log s' = flash_log s @ es
           \<and> after_events Ready es = Some Ready
           \<and> status_reads es = map sr [sr_reads s ..< sr_reads s']
           \<and> sr_reads s \<le> sr_reads s'
           \<and> contiguous a d (programs es) \<and> list_all within_page (programs es)
           \<and> total_size (programs es) = unat n"
proof (induction "unat n" arbitrary: a d n s rule: less_induct)
  case less
  show ?case
  proof (cases "n = 0")
    case True
    have "WriteData_loop sr a d n s = Some s"
      using True by (subst WriteData_loop.simps) simp
    then have "WriteData_loop sr a d n s = Some s
           \<and> flash_log s = flash_log s @ []
           \<and> after_events Ready [] = Some Ready
           \<and> status_reads [] = map sr [sr_reads s ..< sr_reads s]
           \<and> sr_reads s \<le> sr_reads s
           \<and> contiguous a d (programs []) \<and> list_all within_page (programs [])
           \<and> total_size (programs []) = unat n"
      using True by (simp add: total_size_def)
    then show ?thesis by blast
  next
    case False
    let ?b = "bytesToWrite_of a n"
    note b = bytesToWrite_of_bounds [OF False, of a]
    from WriteData_loop_step [OF idle False, of s a d]
    obtain s1 e1 where s1: "flash_log s1 = flash_log s @ e1"
      "after_events Ready e1 = Some Ready"
      "programs e1 = [(a, d, ?b)]"
      "status_reads e1 = map sr [sr_reads s ..< sr_reads s1]"
      "sr_reads s \<le> sr_reads s1"
      "WriteData_loop sr a d n s = WriteData_loop sr (a + ?b) (d + unat ?b) (n - ?b) s1"
      by blast
    have ble: "?b \<le> n" using b(2) by (simp add: word_le_nat_alt)
    have rem: "unat (n - ?b) = unat n - unat ?b"
      using ble by (simp add: unat_sub)
    then have "unat (n - ?b) < unat n" using b(1,2) by simp
    from less [OF this, of "a + ?b" "d + unat ?b" s1]
    obtain s' e2 where rest: "WriteData_loop sr (a + ?b) (d + unat ?b) (n - ?b) s1 = Some s'"
      "flash_log s' = flash_log s1 @ e2"
      "after_events Ready e2 = Some Ready"
      "status_reads e2 = map sr [sr_reads s1 ..< sr_reads s']"
      "sr_reads s1 \<le> sr_reads s'"
      "contiguous (a + ?b) (d + unat ?b) (programs e2)" "list_all within_page (programs e2)"
      "total_size (programs e2) = unat (n - ?b)" by blast
    have st: "status_reads (e1 @ e2) = map sr [sr_reads s ..< sr_reads s']"
      unfolding status_reads_append s1(4) rest(4) map_append [symmetric]
      using s1(5) rest(5) by (simp add: upt_join)
    have "WriteData_loop sr a d n s = Some s'
       \<and> flash_log s' = flash_log s @ (e1 @ e2)
       \<and> after_events Ready (e1 @ e2) = Some Ready
       \<and> status_reads (e1 @ e2) = map sr [sr_reads s ..< sr_reads s']
       \<and> sr_reads s \<le> sr_reads s'
       \<and> contiguous a d (programs (e1 @ e2)) \<and> list_all within_page (programs (e1 @ e2))
       \<and> total_size (programs (e1 @ e2)) = unat n"
      using s1 rest b rem st
      by (simp add: after_events_append programs_append within_page_def total_size_def)
    then show ?thesis by blast
  qed
qed

lemma covered_contiguous:
  "contiguous a d cs \<Longrightarrow> list_all within_page cs \<Longrightarrow> unat a + total_size cs \<le> 2 ^ 32 \<Longrightarrow>
   covered cs = {unat a ..< unat a + total_size cs}"
proof (induction cs arbitrary: a d)
  case Nil
  then show ?case by (simp add: covered_def total_size_def)
next
  case (Cons c cs)
  obtain a' d' n where c: "c = (a', d', n)" by (cases c)
  from Cons.prems(1) have a': "a' = a" and d': "d' = d"
    and cont: "contiguous (a + n) (d + unat n) cs" by (simp_all add: c)
  from Cons.prems(2) have wp: "list_all within_page cs"
    by simp
  from Cons.prems(2) have n0: "0 < unat n"
    by (simp add: c within_page_def)
  have tot: "total_size (c # cs) = unat n + total_size cs"
    by (simp add: total_size_def c)
  have cov: "covered (c # cs) = {unat a ..< unat a + unat n} \<union> covered cs"
    by (simp add: covered_def c a')
  show ?case
  proof (cases cs)
    case Nil
    then show ?thesis using cov tot by (simp add: covered_def total_size_def)
  next
    case (Cons c2 cs2)
    obtain a2 d2 n2 where c2: "c2 = (a2, d2, n2)" by (cases c2)
    have "0 < unat n2" using wp by (simp add: Cons c2 within_page_def)
    then have "0 < total_size cs" by (simp add: total_size_def Cons c2)
    with Cons.prems(3) tot have nowrap: "unat a + unat n < 2 ^ 32" by simp
    then have un: "unat (a + n) = unat a + unat n"
      by (simp add: unat_add_lem [THEN iffD1])
    have "unat (a + n) + total_size cs \<le> 2 ^ 32"
      using Cons.prems(3) tot un by simp
    from Cons.IH [OF cont wp this]
    have "covered cs = {unat a + unat n ..< unat a + unat n + total_size cs}"
      by (simp add: un)
    then show ?thesis using cov tot by auto
  qed
qed


lemma bytesToWrite_of_200_300: "bytesToWrite_of 200 300 = 56"
  by (simp add: bytesToWrite_of_def W25Q128_PAGE_SIZE_def)

lemma bytesToWrite_of_256_244: "bytesToWrite_of 256 244 = 244"
  by (simp add: bytesToWrite_of_def W25Q128_PAGE_SIZE_def)


lemma WriteData_200_300:
  assumes idle: "eventually_idle sr"
  shows "\<exists>s'. WriteData_loop sr 200 0 300 s = Some s'
     \<and> programs (flash_log s') = programs (flash_log s) @ [(200, 0, 56), (256, 56, 244)]"
proof -
  from WriteData_loop_step [OF idle, of 300 s 200 0]
  obtain s1 e1 where s1: "flash_log s1 = flash_log s @ e1" "programs e1 = [(200, 0, 56)]"
    "WriteData_loop sr 200 0 300 s = WriteData_loop sr 256 56 244 s1"
    by (auto simp: bytesToWrite_of_200_300)
  from WriteData_loop_step [OF idle, of 244 s1 256 56]
  obtain s2 e2 where s2: "flash_log s2 = flash_log s1 @ e2" "programs e2 = [(256, 56, 244)]"
    "WriteData_loop sr 256 56 244 s1 = WriteData_loop sr 500 300 0 s2"
    by (auto simp: bytesToWrite_of_256_244)
  have "WriteData_loop sr 500 300 0 s2 = Some s2"
    by (subst WriteData_loop.simps) simp
  with s1 s2 show ?thesis by (simp add: programs_append)
qed


text \<open>Claim C5. When the chip leaves the busy state after every point in time,
  \<^verbatim>\<open>W25Qxx_WriteData\<close> returns for every starting address and size. Its log is
  made of whole rounds: a write enable, the page program, and two busy-waits (the one
  inside the page program and the one after it), each reading the status register until
  the first value with the busy bit clear; the values logged are the successive values of
  the status register. No page program crosses a 256-byte page boundary and each writes
  at least one byte; each starts, in address and in data pointer, where the one before
  it ended, the first at the given address (in 32-bit arithmetic); the sizes add up to
  the given size; when the range does not run over the end of the 32-bit address space
  the programs write exactly the addresses from \<open>address\<close> up to \<open>address + size\<close>.
  For address 200 and size 300 the programs are 56 bytes at 200 and 244 bytes at 256.\<close>

theorem WriteData_stays_in_pages:
  assumes "eventually_idle sr"
  shows "\<exists>s'. W25Qxx_WriteData sr address sz (flash_start k) = Some s'
     \<and> in_rounds (flash_log s')
     \<and> status_reads (flash_log s') = map sr [k ..< sr_reads s']
     \<and> list_all within_page (programs (flash_log s'))
     \<and> contiguous address 0 (programs (flash_log s'))
     \<and> total_size (programs (flash_log s')) = unat sz
     \<and> (unat address + unat sz \<le> 2 ^ 32 \<longrightarrow>
          covered (programs (flash_log s')) = {unat address ..< unat address + unat sz})
     \<and> (address = 200 \<and> sz = 300 \<longrightarrow>
          programs (flash_log s') = [(200, 0, 56), (256, 56, 244)])"
proof -
  from WriteData_loop_returns [OF assms, of address 0 sz "flash_start k"]
  obtain s' es where r: "WriteData_loop sr address 0 sz (flash_start k) = Some s'"
    "flash_log s' = es" "after_events Ready es = Some Ready"
    "status_reads es = map sr [k ..< sr_reads s']"
    "contiguous address 0 (programs es)" "list_all within_page (programs es)"
    "total_size (programs es) = unat sz"
    by (auto simp: flash_start_def)
  have cov: "unat address + unat sz \<le> 2 ^ 32 \<longrightarrow>
          covered (programs es) = {unat address ..< unat address + unat sz}"
    using covered_contiguous [OF r(5,6)] r(7) by simp
  have ex: "address = 200 \<and> sz = 300 \<longrightarrow> programs es = [(200, 0, 56), (256, 56, 244)]"
  proof
    assume a: "address = 200 \<and> sz = 300"
    from WriteData_200_300 [OF assms, of "flash_start k"]
    obtain t where t: "WriteData_loop sr 200 0 300 (flash_start k) = Some t"
      "programs (flash_log t) = programs (flash_log (flash_start k)) @ [(200, 0, 56), (256, 56, 244)]"
      by blast
    from t(1) r(1) a have "t = s'" by simp
    with t(2) r(2) show "programs es = [(200, 0, 56), (256, 56, 244)]"
      by (simp add: flash_start_def)
  qed
  show ?thesis
    unfolding W25Qxx_WriteData_def
  proof (intro exI [of _ s'] conjI)
    show "WriteData_loop sr address 0 sz (flash_start k) = Some s'"
      by (rule r(1))
    show "in_rounds (flash_log s')"
      unfolding r(2) in_rounds_def by (rule r(3))
    show "status_reads (flash_log s') = map sr [k ..< sr_reads s']"
      unfolding r(2) by (rule r(4))
    show "list_all within_page (programs (flash_log s'))"
      unfolding r(2) by (rule r(6))
    show "contiguous address 0 (programs (flash_log s'))"
      unfolding r(2) by (rule r(5))
    show "total_size (programs (flash_log s')) = unat sz"
      unfolding r(2) by (rule r(7))
    show "unat address + unat sz \<le> 2 ^ 32 \<longrightarrow>
          covered (programs (flash_log s')) = {unat address ..< unat address + unat sz}"
      unfolding r(2) by (rule cov)
    show "address = 200 \<and> sz = 300 \<longrightarrow>
          programs (flash_log s') = [(200, 0, 56), (256, 56, 244)]"
      unfolding r(2) by (rule ex)
  qed
qed

lemma eventually_idle_busy_twice: "eventually_idle busy_twice"
  unfolding eventually_idle_def
proof
  fix k :: nat
  have "k \<le> 3 * k + 2" by simp
  moreover have "(3 * k + 2) mod 3 = 2"
    using mod_mult_self4 [of 3 k 2] by simp
  then have "busy_twice (3 * k + 2) AND 0x01 = 0"
    by (simp only: busy_twice_def) simp
  ultimately show "\<exists>j\<ge>k. busy_twice j AND 0x01 = 0" by blast
qed

lemma WriteData_busy_twice_log:
  "W25Qxx_WriteData busy_twice 200 300 (flash_start 0) =
     Some \<lparr>sr_reads = 12,
           flash_log =
             [Ev_WriteEnable, Ev_PageProgram 200 0 56,
              Ev_ReadStatus 1, Ev_ReadStatus 1, Ev_ReadStatus 0,
              Ev_ReadStatus 1, Ev_ReadStatus 1, Ev_ReadStatus 0,
              Ev_WriteEnable, Ev_PageProgram 256 56 244,
              Ev_ReadStatus 1, Ev_ReadStatus 1, Ev_ReadStatus 0,
              Ev_ReadStatus 1, Ev_ReadStatus 1, Ev_ReadStatus 0]\<rparr>"
  by code_simp

theorem WriteData_stays_in_pages_witness:
  "eventually_idle busy_twice
   \<and> 200 + 300 \<le> (2 ^ 32 :: nat)
   \<and> (\<exists>s'. W25Qxx_WriteData busy_twice 200 300 (flash_start 0) = Some s'
         \<and> sr_reads s' = 12
         \<and> in_rounds (flash_log s')
         \<and> status_reads (flash_log s') = map busy_twice [0 ..< sr_reads s']
         \<and> status_reads (flash_log s') = [1, 1, 0, 1, 1, 0, 1, 1, 0, 1, 1, 0]
         \<and> programs (flash_log s') = [(200, 0, 56), (256, 56, 244)]
         \<and> list_all within_page (programs (flash_log s'))
         \<and> covered (programs (flash_log s')) = {200 ..< 500})"
  using WriteData_stays_in_pages [OF eventually_idle_busy_twice, of 200 300 0]
  by (auto simp: eventually_idle_busy_twice WriteData_busy_twice_log)

section \<open>Properties of the WS2812 encoder\<close>

subsection \<open>The duty values are truncated thirds\<close>

lemma bitlen_eq: "2 ^ b \<le> N \<Longrightarrow> N < 2 ^ Suc b \<Longrightarrow> bitlen N = Suc b"
proof (induction b arbitrary: N)
  case 0
  then have "N = 1" by simp
  then show ?case by (simp add: bitlen.simps)
next
  case (Suc b)
  have "2 ^ b \<le> N div 2" using Suc.prems(1) by simp
  moreover have "N div 2 < 2 ^ Suc b" using Suc.prems(2) by simp
  ultimately have "bitlen (N div 2) = Suc b" by (rule Suc.IH)
  moreover have "0 < (2::nat) ^ Suc b" by simp
  with Suc.prems(1) have "N \<noteq> 0" by linarith
  ultimately show ?case by (subst bitlen.simps) simp
qed

lemma bitlen_le: "N < 2 ^ b \<Longrightarrow> bitlen N \<le> b"
proof (induction b arbitrary: N)
  case 0
  then show ?case by (simp add: bitlen.simps)
next
  case (Suc b)
  show ?case
  proof (cases "N = 0")
    case True
    then show ?thesis by (simp add: bitlen.simps)
  next
    case False
    have "N div 2 < 2 ^ b" using Suc.prems by simp
    then have "bitlen (N div 2) \<le> b" by (rule Suc.IH)
    with False show ?thesis by (subst bitlen.simps) simp
  qed
qed

lemma round_to_multiple_near:
  "2 * round_to_multiple sh N \<le> 2 * N + 2 ^ sh \<and> 2 * N \<le> 2 * round_to_multiple sh N + 2 ^ sh"
proof -
  define d :: nat where "d = 2 ^ sh"
  define q where "q = N div d"
  define r where "r = N mod d"
  define A where "A = q * d"
  have d0: "0 < d" by (simp add: d_def)
  have N: "N = A + r" by (simp add: q_def r_def A_def)
  have rd: "r < d" using d0 by (simp add: r_def)
  have R: "round_to_multiple sh N = (if d < 2 * r \<or> (2 * r = d \<and> odd q) then A + d else A)"
    by (simp add: round_to_multiple_def Let_def d_def q_def r_def A_def)
  show ?thesis
  proof (cases "d < 2 * r \<or> (2 * r = d \<and> odd q)")
    case True
    then have "round_to_multiple sh N = A + d" by (simp only: R if_True)
    moreover from True have "d \<le> 2 * r" by auto
    ultimately show ?thesis unfolding d_def [symmetric] N using rd by simp
  next
    case False
    then have "round_to_multiple sh N = A" by (simp only: R if_False)
    moreover from False have "2 * r \<le> d" by auto
    ultimately show ?thesis unfolding d_def [symmetric] N by simp
  qed
qed

lemma div_mod_below_multiple:
  fixes N k M d :: nat
  assumes "N + k = M * d" "0 < k" "k < d"
  shows "N div d = M - 1" and "N mod d = d - k"
proof -
  have "M \<noteq> 0" using assms by (cases M) auto
  then obtain M' where M: "M = Suc M'" by (cases M) auto
  have "N + k = M' * d + d" using assms(1) by (simp add: M)
  then have N: "N = M' * d + (d - k)" using assms(3) by linarith
  have lt: "d - k < d" using assms by simp
  show "N div d = M - 1" unfolding N using lt by (simp add: M)
  show "N mod d = d - k" unfolding N using lt by simp
qed

lemma round_to_multiple_below:
  assumes "N + k = M * 2 ^ sh" "0 < k" "2 * k < 2 ^ sh"
  shows "round_to_multiple sh N = M * 2 ^ sh"
proof -
  define d :: nat where "d = 2 ^ sh"
  have kd: "k < d" "2 * k < d" using assms(3) by (simp_all add: d_def)
  have M: "M \<noteq> 0" using assms(1,2) by (cases M) auto
  note dm = div_mod_below_multiple [OF assms(1) [folded d_def] assms(2) kd(1)]
  obtain M' where M': "M = Suc M'" using M by (cases M) auto
  have "d < 2 * (d - k)" using kd by linarith
  then show ?thesis
    by (simp add: round_to_multiple_def Let_def d_def [symmetric] dm M')
qed

lemma round_to_multiple_below_tie:
  assumes "N + k = M * 2 ^ sh" "2 * k = 2 ^ sh" "even M"
  shows "round_to_multiple sh N = M * 2 ^ sh"
proof -
  define d :: nat where "d = 2 ^ sh"
  have d0: "0 < d" by (simp add: d_def)
  have k: "2 * k = d" using assms(2) by (simp add: d_def)
  then have kd: "0 < k" "k < d" using d0 by linarith+
  have M: "M \<noteq> 0" using assms(1) kd by (cases M) auto
  note dm = div_mod_below_multiple [OF assms(1) [folded d_def] kd]
  have odd: "odd (M - 1)" using assms(3) M by (cases M) auto
  obtain M' where M': "M = Suc M'" using M by (cases M) auto
  have "2 * (d - k) = d" using k by linarith
  then show ?thesis
    using odd by (simp add: round_to_multiple_def Let_def d_def [symmetric] dm M')
qed


lemma round53_third_multiple:
  assumes k1: "1 \<le> k" and k2: "k \<le> 65536"
  shows "round53 (18014398509481983 * k) = 18014398509481984 * k"
proof -
  from ex_power_ivl1 [of 2 k] k1
  obtain j where j: "2 ^ j \<le> k" "k < 2 ^ (j + 1)" by auto
  define P :: nat where "P = 2 ^ j"
  have P0: "0 < P" by (simp add: P_def)
  have Pk: "P \<le> k" "k < 2 * P" using j by (simp_all add: P_def)
  have "(2::nat) ^ j \<le> 2 ^ 16" using j(1) k2 by simp
  then have j16: "j \<le> 16" by (simp only: power_increasing_iff)
  define N :: nat where "N = 18014398509481983 * k"
  show ?thesis
  proof (cases "k = P")
    case True
    have lo: "2 ^ (53 + j) \<le> N"
      unfolding N_def True power_add P_def [symmetric] by simp
    have hi: "N < 2 ^ Suc (53 + j)"
      unfolding N_def True power_Suc power_add P_def [symmetric] using P0 by simp
    have bl: "bitlen N = Suc (53 + j)" using lo hi by (rule bitlen_eq)
    have "N + P = 2 ^ 53 * 2 ^ Suc j"
      unfolding N_def True power_Suc P_def [symmetric] by simp
    moreover have "2 * P = 2 ^ Suc j" by (simp add: P_def)
    moreover have "even ((2::nat) ^ 53)" by simp
    ultimately have "round_to_multiple (Suc j) N = 2 ^ 53 * 2 ^ Suc j"
      by (rule round_to_multiple_below_tie)
    then have "round53 N = 2 ^ 53 * 2 ^ Suc j"
      by (simp add: round53_def bl)
    then show ?thesis
      unfolding N_def [symmetric] by (simp add: True P_def)
  next
    case False
    with Pk have Pk': "P + 1 \<le> k" by simp
    have P16: "P \<le> 65536"
      using Pk(1) k2 by simp
    have lo: "2 ^ (54 + j) \<le> N"
      unfolding N_def power_add P_def [symmetric] using Pk' P16 by simp
    have hi: "N < 2 ^ Suc (54 + j)"
      unfolding N_def power_Suc power_add P_def [symmetric] using Pk(2) by simp
    have bl: "bitlen N = Suc (54 + j)" using lo hi by (rule bitlen_eq)
    have sh: "bitlen N - 53 = j + 2" by (simp add: bl)
    have "(2::nat) ^ (52 - j) * 2 ^ (j + 2) = 2 ^ 54"
      using j16 by (simp add: power_add [symmetric])
    then have e: "2 ^ (52 - j) * k * 2 ^ (j + 2) = 18014398509481984 * k"
      by (simp add: mult.assoc mult.left_commute [of k])
    have "N + k = 2 ^ (52 - j) * k * 2 ^ (j + 2)"
      unfolding e N_def by simp
    moreover have "0 < k" using k1 by simp
    moreover have "2 * k < 2 ^ (j + 2)"
      using Pk(2) by (simp add: P_def)
    ultimately have "round_to_multiple (j + 2) N = 2 ^ (52 - j) * k * 2 ^ (j + 2)"
      by (rule round_to_multiple_below)
    then show ?thesis
      unfolding N_def [symmetric] by (simp only: round53_def sh e)
  qed
qed

lemma round53_third_near:
  assumes n1: "1 \<le> n" and n2: "n \<le> 65536"
  shows "2 * round53 (third_significand * n) \<le> 2 * (third_significand * n) + 65536"
    and "2 * (third_significand * n) \<le> 2 * round53 (third_significand * n) + 65536"
proof -
  define N where "N = third_significand * n"
  have "N < 2 ^ 69"
    unfolding N_def third_significand_def using n2 by simp
  then have "bitlen N \<le> 69" by (rule bitlen_le)
  then have "bitlen N - 53 \<le> 16" by simp
  then have "(2::nat) ^ (bitlen N - 53) \<le> 2 ^ 16"
    by (simp only: power_increasing_iff)
  then have p: "(2::nat) ^ (bitlen N - 53) \<le> 65536" by simp
  from round_to_multiple_near [of "bitlen N - 53" N]
  have "2 * round53 N \<le> 2 * N + 2 ^ (bitlen N - 53)"
    "2 * N \<le> 2 * round53 N + 2 ^ (bitlen N - 53)"
    by (simp_all add: round53_def)
  with p show "2 * round53 (third_significand * n) \<le> 2 * (third_significand * n) + 65536"
    and "2 * (third_significand * n) \<le> 2 * round53 (third_significand * n) + 65536"
    unfolding N_def by linarith+
qed

lemma duty_one_nat:
  assumes n1: "1 \<le> n" and n2: "n \<le> 65536"
  shows "round53 (third_significand * n) div 2 ^ 53 = 2 * n div 3"
proof (cases "n mod 3 = 0")
  case True
  then obtain k where k: "n = 3 * k" by auto
  have "1 \<le> k" "k \<le> 65536" using n1 n2 k by simp_all
  from round53_third_multiple [OF this]
  have "round53 (third_significand * n) = 18014398509481984 * k"
    by (simp add: k third_significand_def)
  then show ?thesis by (simp add: k)
next
  case False
  define T where "T = 2 * n div 3"
  define t where "t = 2 * n mod 3"
  define R where "R = round53 (third_significand * n)"
  define N where "N = third_significand * n"
  have tn: "2 * n = 3 * T + t" by (simp add: T_def t_def)
  have "t \<noteq> 0" using False unfolding t_def by presburger
  moreover have "t < 3" by (simp add: t_def)
  ultimately have t: "1 \<le> t" "t \<le> 2" by simp_all
  have N3: "3 * N = 18014398509481983 * n"
    by (simp add: N_def third_significand_def)
  note near = round53_third_near [OF n1 n2, folded R_def N_def]
  have lo: "2 ^ 53 * T \<le> R"
    using near N3 tn t n2 by simp
  have hi: "R < 2 ^ 53 * Suc T"
    using near N3 tn t n1 by simp
  have "R div 2 ^ 53 = T" using lo hi by (rule div_nat_eqI)
  then show ?thesis by (simp add: R_def T_def)
qed

lemma duty_zero_nat:
  assumes n1: "1 \<le> n" and n2: "n \<le> 65536"
  shows "round53 (third_significand * n) div 2 ^ 54 = n div 3"
proof (cases "n mod 3 = 0")
  case True
  then obtain k where k: "n = 3 * k" by auto
  have "1 \<le> k" "k \<le> 65536" using n1 n2 k by simp_all
  from round53_third_multiple [OF this]
  have "round53 (third_significand * n) = 18014398509481984 * k"
    by (simp add: k third_significand_def)
  then show ?thesis by (simp add: k)
next
  case False
  define T where "T = n div 3"
  define t where "t = n mod 3"
  define R where "R = round53 (third_significand * n)"
  define N where "N = third_significand * n"
  have tn: "n = 3 * T + t" by (simp add: T_def t_def)
  have "t \<noteq> 0" using False unfolding t_def by simp
  moreover have "t < 3" by (simp add: t_def)
  ultimately have t: "1 \<le> t" "t \<le> 2" by simp_all
  have N3: "3 * N = 18014398509481983 * n"
    by (simp add: N_def third_significand_def)
  note near = round53_third_near [OF n1 n2, folded R_def N_def]
  have lo: "2 ^ 54 * T \<le> R"
    using near N3 tn t n2 by simp
  have hi: "R < 2 ^ 54 * Suc T"
    using near N3 tn t n1 by simp
  have "R div 2 ^ 54 = T" using lo hi by (rule div_nat_eqI)
  then show ?thesis by (simp add: R_def T_def)
qed

lemma and_exp_eq_0: "(w AND 2 ^ i = 0) = (\<not> bit w i)" for w :: "32 word"
  using bit_iff_and_push_bit_not_eq_0 [of w i] by simp

lemma colour_loop_eq:
  "colour_loop k color arr (indx, pwm) =
     (indx + k,
      \<lambda>i. if indx \<le> i \<and> i < indx + k
          then (if bit color (indx + k - 1 - i) then duty_one arr else duty_zero arr)
          else pwm i)"
proof (induction k arbitrary: indx pwm)
  case 0
  then show ?case by (auto simp: fun_eq_iff)
next
  case (Suc k)
  have "indx + Suc k - 1 - i = k" if "i = indx" for i using that by simp
  then show ?case
    by (auto simp: Suc.IH and_exp_eq_0 fun_eq_iff)
qed

lemma reset_loop_eq:
  "reset_loop k (indx, pwm) =
     (indx + k, \<lambda>i. if indx \<le> i \<and> i < indx + k then 0 else pwm i)"
proof (induction k arbitrary: indx pwm)
  case 0
  then show ?case by (auto simp: fun_eq_iff)
next
  case (Suc k)
  then show ?case by (auto simp: fun_eq_iff)
qed

lemma filled_buffer:
  "map (snd (reset_loop 50 (colour_loop 24 color arr (0, pwm)))) [0..<74] =
     map (\<lambda>i. if bit color (23 - i) then duty_one arr else duty_zero arr) [0..<24]
     @ replicate 50 0"
proof -
  have split: "[0..<74] = [0..<24] @ [24..<74]"
    using upt_add_eq_append [of 0 24 50] by simp
  have z: "map (\<lambda>i. (0::16 word)) [24..<74] = replicate 50 0"
    by (simp only: map_replicate_const length_upt) simp
  show ?thesis
    unfolding colour_loop_eq reset_loop_eq split map_append snd_conv z [symmetric]
    by (auto intro!: map_cong)
qed

lemma duty_one_truncates: "duty_one arr = of_nat (2 * (unat arr + 1) div 3)"
proof -
  have "unat arr < 2 ^ 16" using unsigned_less [of arr] by simp
  then have "unat arr + 1 \<le> 65536" by simp
  then show ?thesis
    by (simp only: duty_one_def duty_one_nat [of "unat arr + 1"] le_add2)
qed

lemma duty_zero_truncates: "duty_zero arr = of_nat ((unat arr + 1) div 3)"
proof -
  have "unat arr < 2 ^ 16" using unsigned_less [of arr] by simp
  then have "unat arr + 1 \<le> 65536" by simp
  then show ?thesis
    by (simp only: duty_zero_def duty_zero_nat [of "unat arr + 1"] le_add2)
qed

lemma WS2812_Send_started:
  assumes "ARR_read env \<noteq> 0"
  shows "take 2 (fst (WS2812_Send env s)) =
           [WS_HAL_Delay 1,
            WS_PWM_Start_DMA (truncated_buffer (WS_color s) (unat (ARR_read env))) 74]"
    and "snd (WS2812_Send env s) = Some s' \<Longrightarrow>
           map (pwmData s') [0..<74] = truncated_buffer (WS_color s) (unat (ARR_read env))"
proof -
  have c: "WS_color (s\<lparr>ARR_TIM1 := ARR_read env\<rparr>) = WS_color s"
    by (simp add: WS_color_def)
  have buf: "map (snd (reset_loop 50 (colour_loop 24 (WS_color s) (ARR_read env) (0, pwm))))
               [0..<74] = truncated_buffer (WS_color s) (unat (ARR_read env))" for pwm
    unfolding filled_buffer truncated_buffer_def duty_one_truncates duty_zero_truncates ..
  show "take 2 (fst (WS2812_Send env s)) =
           [WS_HAL_Delay 1,
            WS_PWM_Start_DMA (truncated_buffer (WS_color s) (unat (ARR_read env))) 74]"
    using assms
    by (simp add: WS2812_Send_def Let_def c buf split: option.splits del: upt.simps)
  show "map (pwmData s') [0..<74] = truncated_buffer (WS_color s) (unat (ARR_read env))"
    if "snd (WS2812_Send env s) = Some s'"
    using assms that
    by (auto simp: WS2812_Send_def Let_def c buf split: option.splits if_splits
          simp del: upt.simps)
qed

lemma truncated_buffer_white:
  "truncated_buffer 0xFFFFFF P = replicate 24 (of_nat (2 * (P + 1) div 3)) @ replicate 50 0"
proof -
  have m: "(0xFFFFFF :: 32 word) = mask 24" by (simp add: mask_eq_exp_minus_1)
  have "map (\<lambda>i. if bit (0xFFFFFF :: 32 word) (23 - i) then of_nat (2 * (P + 1) div 3)
                 else (of_nat ((P + 1) div 3) :: 16 word)) [0..<24]
        = map (\<lambda>i. of_nat (2 * (P + 1) div 3)) [0..<24]"
    unfolding m by (rule map_cong) (auto simp: bit_mask_iff)
  also have "\<dots> = replicate 24 (of_nat (2 * (P + 1) div 3))"
    by (simp only: map_replicate_const length_upt) simp
  finally show ?thesis by (simp only: truncated_buffer_def)
qed

lemma truncated_buffer_black:
  "truncated_buffer 0 P = replicate 24 (of_nat ((P + 1) div 3)) @ replicate 50 0"
proof -
  have "map (\<lambda>i. if bit (0 :: 32 word) (23 - i) then of_nat (2 * (P + 1) div 3)
                 else (of_nat ((P + 1) div 3) :: 16 word)) [0..<24]
        = map (\<lambda>i. of_nat ((P + 1) div 3)) [0..<24]"
    by (rule map_cong) auto
  also have "\<dots> = replicate 24 (of_nat ((P + 1) div 3))"
    by (simp only: map_replicate_const length_upt) simp
  finally show ?thesis by (simp only: truncated_buffer_def)
qed

text \<open>Claim C3, amended. For every period that reads nonzero into \<^verbatim>\<open>ARR_TIM1\<close>,
  \<^verbatim>\<open>WS2812_Send\<close> writes into the 74-entry buffer, and hands to the DMA with length
  74, the 24 duty values of the colour bits, most significant bit first, followed by 50
  zeros. A duty value is two thirds of the period plus one for a bit 1 and one third of
  it for a bit 0, truncated to an integer (not rounded to the nearest): for colour
  0xFFFFFF all 24 are \<open>\<lfloor>2 (P + 1) / 3\<rfloor>\<close>, for colour 0x000000 all 24 are
  \<open>\<lfloor>(P + 1) / 3\<rfloor>\<close>, and the last 50 slots are 0 for every colour.\<close>

theorem WS2812_Send_truncated_duties:
  assumes "ARR_read env \<noteq> 0"
  shows "take 2 (fst (WS2812_Send env s)) =
           [WS_HAL_Delay 1,
            WS_PWM_Start_DMA (truncated_buffer (WS_color s) (unat (ARR_read env))) 74]
    \<and> (\<forall>s'. snd (WS2812_Send env s) = Some s' \<longrightarrow>
          map (pwmData s') [0..<74] = truncated_buffer (WS_color s) (unat (ARR_read env)))
    \<and> length (truncated_buffer (WS_color s) (unat (ARR_read env))) = 74
    \<and> drop 24 (truncated_buffer (WS_color s) (unat (ARR_read env))) = replicate 50 0
    \<and> (WS_color s = 0xFFFFFF \<longrightarrow>
          truncated_buffer (WS_color s) (unat (ARR_read env))
            = replicate 24 (of_nat (2 * (unat (ARR_read env) + 1) div 3)) @ replicate 50 0)
    \<and> (WS_color s = 0 \<longrightarrow>
          truncated_buffer (WS_color s) (unat (ARR_read env))
            = replicate 24 (of_nat ((unat (ARR_read env) + 1) div 3)) @ replicate 50 0)"
  using WS2812_Send_started [OF assms, of s]
  by (auto simp: truncated_buffer_white truncated_buffer_black)
     (simp_all add: truncated_buffer_def)

theorem WS2812_Send_truncated_duties_witness:
  "ARR_read (env_with_period 99) \<noteq> 0
   \<and> WS_color (ws_with_colour 255 255 255) = 0xFFFFFF
   \<and> take 2 (fst (WS2812_Send (env_with_period 99) (ws_with_colour 255 255 255))) =
       [WS_HAL_Delay 1, WS_PWM_Start_DMA (replicate 24 66 @ replicate 50 0) 74]"
proof -
  have a: "ARR_read (env_with_period 99) \<noteq> 0"
    by (simp add: ARR_read_def env_with_period_def)
  have c: "WS_color (ws_with_colour 255 255 255) = 0xFFFFFF"
    by (simp add: WS_color_def ws_with_colour_def)
  have u: "unat (ARR_read (env_with_period 99)) = 99"
    by (simp add: ARR_read_def env_with_period_def)
  show ?thesis
    using WS2812_Send_truncated_duties [OF a, of "ws_with_colour 255 255 255"] a c
    by (simp add: u)
qed

lemma spec_round_values:
  "spec_round (2 / 3 * (99 + 1)) = 67" "spec_round (1 / 3 * (100 + 1)) = 34"
proof -
  show "spec_round (2 / 3 * (99 + 1)) = 67"
    unfolding spec_round_def by (rule floor_unique) simp_all
  show "spec_round (1 / 3 * (100 + 1)) = 34"
    unfolding spec_round_def by (rule floor_unique) simp_all
qed

text \<open>Claim C3, as stated, fails: with period 99 and colour 0xFFFFFF the 24 duty values
  are 66, and two thirds of 100 rounds to 67; with period 100 and colour 0x000000 they
  are 33, and one third of 101 rounds to 34.\<close>

theorem WS2812_Send_rounding_counterexample:
  "WS_color (ws_with_colour 255 255 255) = 0xFFFFFF
   \<and> take 2 (fst (WS2812_Send (env_with_period 99) (ws_with_colour 255 255 255))) =
       [WS_HAL_Delay 1, WS_PWM_Start_DMA (replicate 24 66 @ replicate 50 0) 74]
   \<and> spec_round (2 / 3 * (99 + 1)) = 67
   \<and> WS_color (ws_with_colour 0 0 0) = 0
   \<and> take 2 (fst (WS2812_Send (env_with_period 100) (ws_with_colour 0 0 0))) =
       [WS_HAL_Delay 1, WS_PWM_Start_DMA (replicate 24 33 @ replicate 50 0) 74]
   \<and> spec_round (1 / 3 * (100 + 1)) = 34"
proof -
  have a: "ARR_read (env_with_period 99) \<noteq> 0" "ARR_read (env_with_period 100) \<noteq> 0"
    by (simp_all add: ARR_read_def env_with_period_def)
  have u: "unat (ARR_read (env_with_period 99)) = 99" "unat (ARR_read (env_with_period 100)) = 100"
    by (simp_all add: ARR_read_def env_with_period_def)
  have c: "WS_color (ws_with_colour 255 255 255) = 0xFFFFFF" "WS_color (ws_with_colour 0 0 0) = 0"
    by (simp_all add: WS_color_def ws_with_colour_def)
  have w: "truncated_buffer 0xFFFFFF 99 = replicate 24 66 @ replicate 50 0"
    by (simp only: truncated_buffer_white) simp
  have b: "truncated_buffer 0 100 = replicate 24 33 @ replicate 50 0"
    by (simp only: truncated_buffer_black) simp
  show ?thesis
    using WS2812_Send_started(1) [OF a(1), of "ws_with_colour 255 255 255"]
      WS2812_Send_started(1) [OF a(2), of "ws_with_colour 0 0 0"]
    by (simp only: u c w b spec_round_values)
qed

subsection \<open>The period that reads as zero\<close>

text \<open>Claim C9. When the configured period reads as zero into \<^verbatim>\<open>ARR_TIM1\<close>,
  \<^verbatim>\<open>WS2812_Send\<close> prints its message and returns: no DMA transfer is started and
  the state is as before but for \<^verbatim>\<open>ARR_TIM1\<close> itself, so the PWM buffer and the
  completion flag are untouched. When it reads as nonzero the function goes on to start
  the DMA transfer of 74 slots. For a period within the 16 bits of the timer, reading
  as zero is being zero.\<close>

theorem WS2812_Send_zero_period_aborts:
  "(ARR_read env = 0 \<longrightarrow>
      WS2812_Send env s =
        ([WS_printf ''ARR has not been initialized''], Some (s\<lparr>ARR_TIM1 := 0\<rparr>)))
   \<and> (ARR_read env \<noteq> 0 \<longrightarrow>
        (\<exists>buf. take 2 (fst (WS2812_Send env s)) = [WS_HAL_Delay 1, WS_PWM_Start_DMA buf 74]
           \<and> length buf = 74))
   \<and> (htim1_Init_Period env \<le> 0xFFFF \<longrightarrow>
        (ARR_read env = 0) = (htim1_Init_Period env = 0))"
proof -
  have z: "ARR_read env = 0 \<longrightarrow>
      WS2812_Send env s =
        ([WS_printf ''ARR has not been initialized''], Some (s\<lparr>ARR_TIM1 := 0\<rparr>))"
    by (simp add: WS2812_Send_def Let_def)
  have nz: "ARR_read env \<noteq> 0 \<longrightarrow>
        (\<exists>buf. take 2 (fst (WS2812_Send env s)) = [WS_HAL_Delay 1, WS_PWM_Start_DMA buf 74]
           \<and> length buf = 74)"
    by (auto simp: WS2812_Send_def Let_def split: option.splits simp del: upt.simps)
  have r: "htim1_Init_Period env \<le> 0xFFFF \<longrightarrow>
        (ARR_read env = 0) = (htim1_Init_Period env = 0)"
  proof
    assume "htim1_Init_Period env \<le> 0xFFFF"
    then have "unat (htim1_Init_Period env) \<le> 65535" by (simp add: word_le_nat_alt)
    then have "unat (ARR_read env) = unat (htim1_Init_Period env)"
      by (simp add: ARR_read_def unsigned_ucast_eq take_bit_nat_eq_self)
    then show "(ARR_read env = 0) = (htim1_Init_Period env = 0)"
      by (metis unat_eq_0)
  qed
  from z nz r show ?thesis by blast
qed

theorem WS2812_Send_zero_period_aborts_witness:
  "ARR_read (env_with_period 0) = 0
   \<and> WS2812_Send (env_with_period 0) (ws_with_colour 255 255 255) =
       ([WS_printf ''ARR has not been initialized''],
        Some ((ws_with_colour 255 255 255)\<lparr>ARR_TIM1 := 0\<rparr>))
   \<and> ARR_read (env_with_period 99) \<noteq> 0
   \<and> (\<exists>buf. take 2 (fst (WS2812_Send (env_with_period 99) (ws_with_colour 255 255 255)))
               = [WS_HAL_Delay 1, WS_PWM_Start_DMA buf 74])"
proof -
  have a: "ARR_read (env_with_period 0) = 0" "ARR_read (env_with_period 99) \<noteq> 0"
    by (simp_all add: ARR_read_def env_with_period_def)
  show ?thesis
    using WS2812_Send_zero_period_aborts [of "env_with_period 0" "ws_with_colour 255 255 255"]
      WS2812_Send_zero_period_aborts [of "env_with_period 99" "ws_with_colour 255 255 255"] a
    by auto
qed

end
